theory Spec2Isabelle
  imports Complex_Main "HOL-Library.AList"
begin

section \<open>The asset pipeline simulation (simpy4.py, simpy6.py)\<close>

text \<open>
  The scripts drive one generator per asset through a SimPy environment. The embedding
  makes the three hidden pieces of state explicit:
  \<^item> the process-global generator of module \<^verbatim>\<open>random\<close> is the sequence of the draws it
    will deliver (\<open>rng\<close>); a seed fixes this sequence;
  \<^item> a suspended generator is the program point it waits at, with its live locals
    (\<open>gen\<close>);
  \<^item> the SimPy environment is its clock, its event heap and its event counter.
  Simulated time and probabilities are real numbers: the event loop is modelled without
  the rounding of Python floats. The arrival time of simpy6, whose window depends on the
  rounding, is also given in binary64 arithmetic (\<open>start_time_float\<close>).
\<close>

subsection \<open>Data\<close>

record phase =
  name :: string
  duration :: real
  success_prob :: real

datatype outcome = SUCCESS | FAILURE

text \<open>One value of the per-asset dictionary \<^verbatim>\<open>phase_results\<close>.\<close>

record phase_result =
  start_time :: real
  end_time :: real
  outcome :: outcome

text \<open>One dictionary appended to \<^verbatim>\<open>records\<close>.\<close>

record row =
  replication :: int
  asset_id :: int
  phase :: string
  phase_idx :: nat
  phase_duration :: real
  phase_success_prob :: real
  phase_start_time :: real
  phase_end_time :: real
  phase_outcome :: outcome
  asset_init_time :: real

datatype error = IndexError | ValueError

text \<open>The two scripts that keep a record table; they differ in the arrival time only.\<close>

datatype script = Simpy4 | Simpy6

definition SIMULATION_DETAILS_phases :: "phase list" where
  "SIMULATION_DETAILS_phases =
    [\<lparr>name = ''ID1'', duration = 10, success_prob = 95 / 100\<rparr>,
     \<lparr>name = ''ID2'', duration = 12, success_prob = 90 / 100\<rparr>,
     \<lparr>name = ''Ph1'', duration = 52, success_prob = 5 / 10\<rparr>,
     \<lparr>name = ''Ph2A'', duration = 52, success_prob = 6 / 10\<rparr>,
     \<lparr>name = ''Ph2B'', duration = 52, success_prob = 7 / 10\<rparr>,
     \<lparr>name = ''Ph3'', duration = 104, success_prob = 5 / 10\<rparr>,
     \<lparr>name = ''File'', duration = 26, success_prob = 9 / 10\<rparr>]"

definition ASSETS_PER_YEAR :: int where
  "ASSETS_PER_YEAR = 50"

subsection \<open>The random module\<close>

type_synonym rng = "nat \<Rightarrow> real"

text \<open>\<^verbatim>\<open>random.random()\<close>: the next draw, and the generator advanced by one.\<close>

definition random_random :: "rng \<Rightarrow> real \<times> rng" where
  "random_random g = (g 0, \<lambda>i. g (Suc i))"

text \<open>\<^verbatim>\<open>random.uniform(a, b)\<close> is \<^verbatim>\<open>a + (b - a) * random()\<close>.\<close>

definition random_uniform :: "real \<Rightarrow> real \<Rightarrow> rng \<Rightarrow> real \<times> rng" where
  "random_uniform a b g = (case random_random g of (u, g') \<Rightarrow> (a + (b - a) * u, g'))"

subsection \<open>The SimPy environment\<close>

text \<open>
  An event of the heap, with the process its callback resumes. The event of a process
  that has ended has no callback; it carries the exception when the generator raised.
\<close>

datatype event = Initialize int | Timeout int | Process int "error option"

type_synonym entry = "real \<times> nat \<times> nat \<times> event"

type_synonym phase_results = "(string \<times> phase_result) list"

text \<open>
  The program points of \<^verbatim>\<open>asset_trajectory\<close> at which the generator is suspended:
  before its first statement, at the arrival timeout (local \<^verbatim>\<open>start_time\<close>), at the
  timeout inside the loop (locals \<^verbatim>\<open>start_time\<close>, \<^verbatim>\<open>current_time\<close>, \<^verbatim>\<open>phase_results\<close>,
  \<^verbatim>\<open>idx\<close>, \<^verbatim>\<open>phase\<close> and the rest of the iterator), and after its end.
\<close>

datatype gen =
    Created
  | AtArrival real
  | AtPhase real real phase_results nat phase "phase list"
  | Finished

record sim =
  now :: real
  queue :: "entry list"
  eid :: nat
  procs :: "int \<rightharpoonup> gen"
  rng :: rng
  results :: "(int \<times> phase_results) list"
  records :: "row list"

definition URGENT :: nat where "URGENT = 0"
definition NORMAL :: nat where "NORMAL = 1"

text \<open>\<^verbatim>\<open>Environment.schedule\<close>: push \<^verbatim>\<open>(now + delay, priority, next(eid), event)\<close>.\<close>

definition schedule :: "event \<Rightarrow> nat \<Rightarrow> real \<Rightarrow> sim \<Rightarrow> sim" where
  "schedule ev prio delay s =
     s\<lparr>queue := queue s @ [(now s + delay, prio, eid s, ev)], eid := Suc (eid s)\<rparr>"

text \<open>
  The heap orders its entries as Python orders tuples; the event counter makes the
  first three components distinct, so the heap's least entry is the least of the list.
\<close>

fun entry_less :: "entry \<Rightarrow> entry \<Rightarrow> bool" where
  "entry_less (t1, p1, e1, _) (t2, p2, e2, _) =
     (t1 < t2 \<or> (t1 = t2 \<and> (p1 < p2 \<or> (p1 = p2 \<and> e1 < e2))))"

fun heap_min :: "entry \<Rightarrow> entry list \<Rightarrow> entry" where
  "heap_min m [] = m"
| "heap_min m (x # xs) = heap_min (if entry_less x m then x else m) xs"

definition heappop :: "entry list \<Rightarrow> (entry \<times> entry list) option" where
  "heappop q = (case q of [] \<Rightarrow> None
                | x # xs \<Rightarrow> (let m = heap_min x xs in Some (m, remove1 m q)))"

subsection \<open>The generator asset_trajectory\<close>

datatype gen_result = Yielded real gen | Stopped | Raised error

text \<open>
  The first statements of \<^verbatim>\<open>asset_trajectory\<close>. simpy4 reads the window from the third
  phase of the table (IndexError when there is none, before anything is drawn); simpy6
  adds a draw in a 52-week window to the start of the asset's year.
\<close>

fun arrival :: "script \<Rightarrow> phase list \<Rightarrow> int \<Rightarrow> rng \<Rightarrow> error + (real \<times> rng)" where
  "arrival Simpy4 P a g =
     (if 2 < length P then Inr (random_uniform 0 (duration (P ! 2)) g) else Inl IndexError)"
| "arrival Simpy6 P a g =
     (let year = (a - 1) div ASSETS_PER_YEAR;
          year_start = real_of_int (year * 52)
      in case random_uniform 0 52 g of (u, g') \<Rightarrow> Inr (year_start + u, g'))"

text \<open>The end of the generator: \<^verbatim>\<open>results[asset_id] = phase_results\<close>.\<close>

definition finish :: "int \<Rightarrow> phase_results \<Rightarrow> sim \<Rightarrow> gen_result \<times> sim" where
  "finish a pres s = (Stopped, s\<lparr>results := AList.update a pres (results s)\<rparr>)"

text \<open>
  The head of the loop: take the next phase from the iterator, leave the loop when the
  table is exhausted or \<^verbatim>\<open>success\<close> is false, else create the timeout of the phase
  (\<^verbatim>\<open>Timeout\<close> raises ValueError on a negative delay) and suspend.
\<close>

fun loop_head ::
  "int \<Rightarrow> real \<Rightarrow> real \<Rightarrow> phase_results \<Rightarrow> bool \<Rightarrow> nat \<Rightarrow> phase list \<Rightarrow> sim \<Rightarrow> gen_result \<times> sim"
where
  "loop_head a st cur pres success idx [] s = finish a pres s"
| "loop_head a st cur pres success idx (ph # rest) s =
     (if \<not> success then finish a pres s
      else if duration ph < 0 then (Raised ValueError, s)
      else (Yielded (duration ph) (AtPhase st cur pres idx ph rest), s))"

definition mk_row ::
  "int \<Rightarrow> int \<Rightarrow> nat \<Rightarrow> phase \<Rightarrow> real \<Rightarrow> real \<Rightarrow> outcome \<Rightarrow> real \<Rightarrow> row" where
  "mk_row rep a idx ph cur t oc st =
     \<lparr>replication = rep, asset_id = a, phase = name ph, phase_idx = idx,
      phase_duration = duration ph, phase_success_prob = success_prob ph,
      phase_start_time = cur, phase_end_time = t, phase_outcome = oc,
      asset_init_time = st\<rparr>"

text \<open>One \<^verbatim>\<open>send\<close> to the generator: the code from one suspension to the next.\<close>

fun send :: "script \<Rightarrow> phase list \<Rightarrow> int \<Rightarrow> int \<Rightarrow> gen \<Rightarrow> sim \<Rightarrow> gen_result \<times> sim" where
  "send sc P rep a Created s =
     (case arrival sc P a (rng s) of
        Inl e \<Rightarrow> (Raised e, s)
      | Inr (st, g') \<Rightarrow>
          if st < 0 then (Raised ValueError, s\<lparr>rng := g'\<rparr>)
          else (Yielded st (AtArrival st), s\<lparr>rng := g'\<rparr>))"
| "send sc P rep a (AtArrival st) s = loop_head a st (now s) [] True 0 P s"
| "send sc P rep a (AtPhase st cur pres idx ph rest) s =
     (case random_random (rng s) of (u, g') \<Rightarrow>
        let success = (u < success_prob ph);
            oc = (if success then SUCCESS else FAILURE);
            pres' = AList.update (name ph)
                      \<lparr>start_time = cur, end_time = now s, outcome = oc\<rparr> pres;
            s' = s\<lparr>rng := g',
                   records := records s @ [mk_row rep a idx ph cur (now s) oc st]\<rparr>
        in loop_head a st (now s) pres' success (Suc idx) rest s')"
| "send sc P rep a Finished s = (Stopped, s)"

text \<open>
  \<^verbatim>\<open>Process._resume\<close>: send to the generator; a yielded timeout is on the heap with the
  process as its callback, a generator that returned or raised schedules the event of
  the process itself.
\<close>

definition resume :: "script \<Rightarrow> phase list \<Rightarrow> int \<Rightarrow> int \<Rightarrow> sim \<Rightarrow> sim" where
  "resume sc P rep a s =
     (case procs s a of
        None \<Rightarrow> s
      | Some gn \<Rightarrow>
          (case send sc P rep a gn s of
             (Yielded delay gn', s') \<Rightarrow>
               schedule (Timeout a) NORMAL delay (s'\<lparr>procs := (procs s')(a \<mapsto> gn')\<rparr>)
           | (Stopped, s') \<Rightarrow>
               schedule (Process a None) NORMAL 0 (s'\<lparr>procs := (procs s')(a \<mapsto> Finished)\<rparr>)
           | (Raised e, s') \<Rightarrow>
               schedule (Process a (Some e)) NORMAL 0
                 (s'\<lparr>procs := (procs s')(a \<mapsto> Finished)\<rparr>)))"

datatype step_result = EmptySchedule | Raise error | Continue sim

text \<open>
  \<^verbatim>\<open>Environment.step\<close>: pop the least entry, set the clock, run the callbacks; the event
  of a failed process, which nobody handles, raises its exception.
\<close>

definition step :: "script \<Rightarrow> phase list \<Rightarrow> int \<Rightarrow> sim \<Rightarrow> step_result" where
  "step sc P rep s =
     (case heappop (queue s) of
        None \<Rightarrow> EmptySchedule
      | Some ((t, prio, e, ev), q') \<Rightarrow>
          (let s1 = s\<lparr>now := t, queue := q'\<rparr>
           in case ev of
                Initialize a \<Rightarrow> Continue (resume sc P rep a s1)
              | Timeout a \<Rightarrow> Continue (resume sc P rep a s1)
              | Process a None \<Rightarrow> Continue s1
              | Process a (Some err) \<Rightarrow> Raise err))"

text \<open>\<^verbatim>\<open>Environment.run()\<close>: step until the heap is empty. None is a run that never ends.\<close>

partial_function (option) run :: "script \<Rightarrow> phase list \<Rightarrow> int \<Rightarrow> sim \<Rightarrow> (error + sim) option"
where
  "run sc P rep s =
     (case step sc P rep s of
        EmptySchedule \<Rightarrow> Some (Inr s)
      | Raise err \<Rightarrow> Some (Inl err)
      | Continue s' \<Rightarrow> run sc P rep s')"

text \<open>\<^verbatim>\<open>env.process(asset_trajectory(...))\<close>: a new process and its Initialize event.\<close>

definition process :: "int \<Rightarrow> sim \<Rightarrow> sim" where
  "process a s = schedule (Initialize a) URGENT 0 (s\<lparr>procs := (procs s)(a \<mapsto> Created)\<rparr>)"

definition Environment :: "rng \<Rightarrow> sim" where
  "Environment g =
     \<lparr>now = 0, queue = [], eid = 0, procs = Map.empty, rng = g, results = [], records = []\<rparr>"

text \<open>
  \<^verbatim>\<open>run_simulation\<close>, with the generator state it starts from and the one it leaves
  behind. simpy6 returns the replication id beside the same two tables.
\<close>

definition run_simulation ::
  "script \<Rightarrow> phase list \<Rightarrow> int \<Rightarrow> int \<Rightarrow> rng
     \<Rightarrow> (error + ((int \<times> phase_results) list \<times> row list) \<times> rng) option" where
  "run_simulation sc P num_assets rep g =
     (case run sc P rep (fold process [1..num_assets] (Environment g)) of
        None \<Rightarrow> None
      | Some (Inl err) \<Rightarrow> Some (Inl err)
      | Some (Inr s) \<Rightarrow> Some (Inr ((results s, records s), rng s)))"

subsection \<open>Specification vocabulary\<close>

text \<open>The records of one asset, in the order of emission.\<close>

definition asset_records :: "int \<Rightarrow> row list \<Rightarrow> row list" where
  "asset_records a rs = filter (\<lambda>r. asset_id r = a) rs"

text \<open>
  The clock when an asset that arrived at \<open>st\<close> enters phase \<open>k\<close>: the durations are
  added one after the other, as the timeouts do.
\<close>

definition start_at :: "real \<Rightarrow> phase list \<Rightarrow> nat \<Rightarrow> real" where
  "start_at st P k = foldl (+) st (map duration (take k P))"

text \<open>
  The records of asset \<open>a\<close>, arrived at \<open>st\<close>, are what the loop writes for the first
  phases of the table, each but the last a success.
\<close>

definition record_chain :: "phase list \<Rightarrow> int \<Rightarrow> int \<Rightarrow> real \<Rightarrow> row list \<Rightarrow> bool" where
  "record_chain P rep a st rs =
     (length rs \<le> length P \<and>
      (\<forall>k<length rs. rs ! k = mk_row rep a k (P ! k) (start_at st P k) (start_at st P (Suc k))
                                  (phase_outcome (rs ! k)) st) \<and>
      (\<forall>k. Suc k < length rs \<longrightarrow> phase_outcome (rs ! k) = SUCCESS))"

text \<open>The chain has ended: at a failure, or with the last phase.\<close>

definition complete :: "phase list \<Rightarrow> row list \<Rightarrow> bool" where
  "complete P rs =
     (if P = [] then rs = []
      else rs \<noteq> [] \<and> (phase_outcome (last rs) = FAILURE \<or>
                      (length rs = length P \<and> phase_outcome (last rs) = SUCCESS)))"

text \<open>The dictionary \<^verbatim>\<open>phase_results\<close> that the writes for these records build.\<close>

definition phase_results_of :: "row list \<Rightarrow> phase_results" where
  "phase_results_of rs =
     fold (\<lambda>r. AList.update (phase r)
                 \<lparr>start_time = phase_start_time r, end_time = phase_end_time r,
                  outcome = phase_outcome r\<rparr>) rs []"

text \<open>
  The entries of the heap that will resume process \<open>a\<close>, the event of a process that
  failed, and the process an event belongs to.
\<close>

fun is_wakeup :: "int \<Rightarrow> entry \<Rightarrow> bool" where
  "is_wakeup a (t, p, e, Initialize b) = (b = a)"
| "is_wakeup a (t, p, e, Timeout b) = (b = a)"
| "is_wakeup a (t, p, e, Process b err) = False"

definition pending :: "int \<Rightarrow> entry list \<Rightarrow> entry list" where
  "pending a q = filter (is_wakeup a) q"

definition failed :: "int \<Rightarrow> entry list \<Rightarrow> bool" where
  "failed a q = (\<exists>t p e err. (t, p, e, Process a (Some err)) \<in> set q)"

fun target :: "event \<Rightarrow> int" where
  "target (Initialize a) = a"
| "target (Timeout a) = a"
| "target (Process a err) = a"

text \<open>simpy4 needs a third phase to compute an arrival time.\<close>

definition can_arrive :: "script \<Rightarrow> phase list \<Rightarrow> bool" where
  "can_arrive sc P = (sc = Simpy6 \<or> 2 < length P)"

text \<open>The generator after \<open>d\<close> further draws.\<close>

definition drop_draws :: "nat \<Rightarrow> rng \<Rightarrow> rng" where
  "drop_draws d g = (\<lambda>i. g (i + d))"

text \<open>\<open>st\<close> is an arrival time that the first statements compute from the stream \<open>g0\<close>.\<close>

definition arrived :: "script \<Rightarrow> phase list \<Rightarrow> int \<Rightarrow> rng \<Rightarrow> real \<Rightarrow> bool" where
  "arrived sc P a g0 st =
     (\<exists>k. arrival sc P a (drop_draws k g0) = Inr (st, drop_draws (Suc k) g0))"

text \<open>The number of draws one \<open>send\<close> takes from the generator.\<close>

fun consumes :: "script \<Rightarrow> phase list \<Rightarrow> gen \<Rightarrow> nat" where
  "consumes sc P Created = (if can_arrive sc P then 1 else 0)"
| "consumes sc P (AtArrival st) = 0"
| "consumes sc P (AtPhase st cur pres idx ph rest) = 1"
| "consumes sc P Finished = 0"

text \<open>
  The invariant of the event loop. For every process: its records, its entry in
  \<^verbatim>\<open>results\<close> and its one pending wake-up agree with the point its generator waits at.
\<close>

fun proc_ok ::
  "script \<Rightarrow> phase list \<Rightarrow> int \<Rightarrow> rng \<Rightarrow> sim \<Rightarrow> int \<Rightarrow> gen \<Rightarrow> bool" where
  "proc_ok sc P rep g0 s a Created =
     (asset_records a (records s) = [] \<and> map_of (results s) a = None \<and>
      (\<exists>e. pending a (queue s) = [(0, URGENT, e, Initialize a)]))"
| "proc_ok sc P rep g0 s a (AtArrival st) =
     (asset_records a (records s) = [] \<and> map_of (results s) a = None \<and> can_arrive sc P \<and>
      arrived sc P a g0 st \<and>
      (\<exists>e. pending a (queue s) = [(st, NORMAL, e, Timeout a)]))"
| "proc_ok sc P rep g0 s a (AtPhase st cur pres idx ph rest) =
     (length (asset_records a (records s)) = idx \<and> idx < length P \<and> ph = P ! idx \<and>
      rest = drop (Suc idx) P \<and> cur = start_at st P idx \<and>
      record_chain P rep a st (asset_records a (records s)) \<and>
      (\<forall>r\<in>set (asset_records a (records s)). phase_outcome r = SUCCESS) \<and>
      pres = phase_results_of (asset_records a (records s)) \<and>
      map_of (results s) a = None \<and> can_arrive sc P \<and> arrived sc P a g0 st \<and>
      (\<exists>e. pending a (queue s) = [(cur + duration ph, NORMAL, e, Timeout a)]))"
| "proc_ok sc P rep g0 s a Finished =
     (pending a (queue s) = [] \<and>
      ((\<exists>st. record_chain P rep a st (asset_records a (records s)) \<and> arrived sc P a g0 st) \<and>
       complete P (asset_records a (records s)) \<and> can_arrive sc P \<and>
       map_of (results s) a = Some (phase_results_of (asset_records a (records s)))
       \<or> map_of (results s) a = None \<and> failed a (queue s)))"

definition sim_inv :: "script \<Rightarrow> phase list \<Rightarrow> int \<Rightarrow> rng \<Rightarrow> sim \<Rightarrow> bool" where
  "sim_inv sc P rep g0 s =
     ((\<forall>a gn. procs s a = Some gn \<longrightarrow> proc_ok sc P rep g0 s a gn) \<and>
      (\<forall>x\<in>set (queue s). target (snd (snd (snd x))) \<in> dom (procs s)) \<and>
      (\<forall>r\<in>set (records s). asset_id r \<in> dom (procs s)) \<and>
      fst ` set (results s) \<subseteq> dom (procs s) \<and>
      distinct (map fst (results s)) \<and>
      (\<exists>k. rng s = drop_draws k g0))"

text \<open>
  A bound on the steps the event loop still takes: every entry of the heap is popped
  once, and a wake-up entry stands for the sends its process still accepts.
\<close>

fun remaining :: "phase list \<Rightarrow> gen \<Rightarrow> nat" where
  "remaining P Created = length P + 2"
| "remaining P (AtArrival st) = length P + 1"
| "remaining P (AtPhase st cur pres idx ph rest) = length rest + 1"
| "remaining P Finished = 0"

fun weight :: "phase list \<Rightarrow> (int \<rightharpoonup> gen) \<Rightarrow> entry \<Rightarrow> nat" where
  "weight P pr (t, p, e, Process a err) = 1"
| "weight P pr (t, p, e, Initialize a) = 2 + (case pr a of None \<Rightarrow> 0 | Some gn \<Rightarrow> remaining P gn)"
| "weight P pr (t, p, e, Timeout a) = 2 + (case pr a of None \<Rightarrow> 0 | Some gn \<Rightarrow> remaining P gn)"

definition steps_left :: "phase list \<Rightarrow> sim \<Rightarrow> nat" where
  "steps_left P s = sum_list (map (weight P (procs s)) (queue s))"

text \<open>The state in which \<^verbatim>\<open>env.run()\<close> is called.\<close>

definition initial :: "script \<Rightarrow> phase list \<Rightarrow> int \<Rightarrow> rng \<Rightarrow> sim \<Rightarrow> bool" where
  "initial sc P rep g s =
     (sim_inv sc P rep g s \<and> now s = 0 \<and> records s = [] \<and> results s = [] \<and> rng s = g)"

text \<open>A small run used to instantiate the theorems: three phases, two assets.\<close>

definition example_phases :: "phase list" where
  "example_phases =
    [\<lparr>name = ''A'', duration = 10, success_prob = 1\<rparr>,
     \<lparr>name = ''B'', duration = 5, success_prob = 1 / 2\<rparr>,
     \<lparr>name = ''C'', duration = 2, success_prob = 1\<rparr>]"

definition example_rng :: rng where
  "example_rng = (\<lambda>i. if i = 0 \<or> i = 4 then 1 / 4 else 3 / 4)"

definition example_records :: "row list" where
  "example_records =
    [mk_row 7 1 0 (example_phases ! 0) (1 / 2) (21 / 2) SUCCESS (1 / 2),
     mk_row 7 2 0 (example_phases ! 0) (3 / 2) (23 / 2) SUCCESS (3 / 2),
     mk_row 7 1 1 (example_phases ! 1) (21 / 2) (31 / 2) SUCCESS (1 / 2),
     mk_row 7 2 1 (example_phases ! 1) (23 / 2) (33 / 2) FAILURE (3 / 2),
     mk_row 7 1 2 (example_phases ! 2) (31 / 2) (35 / 2) SUCCESS (1 / 2)]"

definition example_results :: "(int \<times> phase_results) list" where
  "example_results =
    [(2, [(''A'', \<lparr>start_time = 3 / 2, end_time = 23 / 2, outcome = SUCCESS\<rparr>),
          (''B'', \<lparr>start_time = 23 / 2, end_time = 33 / 2, outcome = FAILURE\<rparr>)]),
     (1, [(''A'', \<lparr>start_time = 1 / 2, end_time = 21 / 2, outcome = SUCCESS\<rparr>),
          (''B'', \<lparr>start_time = 21 / 2, end_time = 31 / 2, outcome = SUCCESS\<rparr>),
          (''C'', \<lparr>start_time = 31 / 2, end_time = 35 / 2, outcome = SUCCESS\<rparr>)])]"

text \<open>The two-phase table of the specification's third scenario, with its phase names free.\<close>

definition scenario3 :: "string \<Rightarrow> string \<Rightarrow> phase list" where
  "scenario3 n1 n2 =
     [\<lparr>name = n1, duration = 10, success_prob = 1\<rparr>, \<lparr>name = n2, duration = 5, success_prob = 1\<rparr>]"

definition scenario3_rng :: rng where
  "scenario3_rng = (\<lambda>i. if i = 0 then 3 / 52 else 1 / 2)"

text \<open>The draws a suspended generator may still take, and their sum over the heap.\<close>

fun draws_needed :: "phase list \<Rightarrow> gen \<Rightarrow> nat" where
  "draws_needed P Created = length P + 1"
| "draws_needed P (AtArrival st) = length P"
| "draws_needed P (AtPhase st cur pres idx ph rest) = length rest + 1"
| "draws_needed P Finished = 0"

fun draw_weight :: "phase list \<Rightarrow> (int \<rightharpoonup> gen) \<Rightarrow> entry \<Rightarrow> nat" where
  "draw_weight P pr (t, p, e, Process a err) = 0"
| "draw_weight P pr (t, p, e, Initialize a) = (case pr a of None \<Rightarrow> 0 | Some gn \<Rightarrow> draws_needed P gn)"
| "draw_weight P pr (t, p, e, Timeout a) = (case pr a of None \<Rightarrow> 0 | Some gn \<Rightarrow> draws_needed P gn)"

definition draws_left :: "phase list \<Rightarrow> sim \<Rightarrow> nat" where
  "draws_left P s = sum_list (map (draw_weight P (procs s)) (queue s))"

definition example_rng2 :: rng where
  "example_rng2 = (\<lambda>i. if i < 8 then example_rng i else 0)"

text \<open>What the caller of \<^verbatim>\<open>run_simulation\<close> receives: the exception or the two tables.\<close>

definition returned ::
  "(error + ((int \<times> phase_results) list \<times> row list) \<times> rng) option
     \<Rightarrow> (error + (int \<times> phase_results) list \<times> row list) option" where
  "returned r = map_option (map_sum id fst) r"

definition tables :: "error + sim \<Rightarrow> error + (int \<times> phase_results) list \<times> row list" where
  "tables r = map_sum id (\<lambda>s. (results s, records s)) r"

text \<open>
  Which exception a failed process carries: IndexError exactly when the script cannot
  compute an arrival time from the table.
\<close>

definition errs_ok :: "script \<Rightarrow> phase list \<Rightarrow> entry list \<Rightarrow> bool" where
  "errs_ok sc P q =
     (\<forall>x\<in>set q. \<forall>b e. snd (snd (snd x)) = Process b (Some e) \<longrightarrow>
        (e = IndexError) = (\<not> can_arrive sc P))"

text \<open>
  The validation that the specification asks of a phase table. No function of the
  scripts computes it.
\<close>

definition spec_valid_phase_table :: "phase list \<Rightarrow> bool" where
  "spec_valid_phase_table P =
     (list_all (\<lambda>ph. 0 < duration ph \<and> 0 \<le> success_prob ph \<and> success_prob ph \<le> 1 \<and>
                     name ph \<noteq> []) P \<and>
      distinct (map name P) \<and> P \<noteq> [])"

text \<open>A table that breaks every condition of the validation.\<close>

definition unvalidated_phases :: "phase list" where
  "unvalidated_phases =
     [\<lparr>name = [], duration = 0, success_prob = 2\<rparr>,
      \<lparr>name = [], duration = 0, success_prob = - 1\<rparr>]"

text \<open>No process on the heap has failed.\<close>

definition no_failed :: "entry list \<Rightarrow> bool" where
  "no_failed q = (\<forall>x\<in>set q. \<forall>b e. snd (snd (snd x)) \<noteq> Process b (Some e))"

text \<open>
  Inputs on which no generator raises: the script can compute an arrival time, no
  duration is negative, and no draw is negative.
\<close>

definition runnable :: "script \<Rightarrow> phase list \<Rightarrow> rng \<Rightarrow> bool" where
  "runnable sc P g = (can_arrive sc P \<and> list_all (\<lambda>ph. 0 \<le> duration ph) P \<and> (\<forall>i. 0 \<le> g i))"

text \<open>
  The arrival time of simpy6 as the interpreter computes it, in binary64 arithmetic:
  every product and sum is rounded to the nearest number with a 53-bit significand, ties
  to the even one. The range of the exponent is not modelled (no overflow, no
  subnormal numbers); the values here are far from both.
\<close>

definition round_even :: "real \<Rightarrow> int" where
  "round_even r =
     (let f = \<lfloor>r\<rfloor>
      in if r - of_int f < 1 / 2 then f
         else if 1 / 2 < r - of_int f then f + 1
         else if even f then f else f + 1)"

definition binade :: "real \<Rightarrow> int" where
  "binade x = \<lfloor>log 2 \<bar>x\<bar>\<rfloor>"

definition fl :: "real \<Rightarrow> real" where
  "fl x =
     (if x = 0 then 0
      else of_int (round_even (x * 2 powr of_int (52 - binade x))) * 2 powr of_int (binade x - 52))"

definition fadd :: "real \<Rightarrow> real \<Rightarrow> real" where
  "fadd x y = fl (x + y)"

definition fmul :: "real \<Rightarrow> real \<Rightarrow> real" where
  "fmul x y = fl (x * y)"

text \<open>\<^verbatim>\<open>random.uniform(a, b)\<close> for integers \<open>a\<close>, \<open>b\<close> and the draw \<open>r\<close> of \<^verbatim>\<open>random()\<close>.\<close>

definition uniform_float :: "int \<Rightarrow> int \<Rightarrow> real \<Rightarrow> real" where
  "uniform_float a b r = fadd (fl (of_int a)) (fmul (fl (of_int (b - a))) r)"

text \<open>The first three statements of \<^verbatim>\<open>asset_trajectory\<close> in simpy6.\<close>

definition start_time_float :: "int \<Rightarrow> real \<Rightarrow> real" where
  "start_time_float a r =
     (let year = (a - 1) div ASSETS_PER_YEAR;
          year_start = year * 52
      in fadd (fl (of_int year_start)) (uniform_float 0 52 r))"

text \<open>
  What a second call with the same arguments returns in the example, when it starts from
  the generator that the first call left behind.
\<close>

definition example_records_second :: "row list" where
  "example_records_second =
    [mk_row 7 1 0 (example_phases ! 0) (3 / 2) (23 / 2) SUCCESS (3 / 2),
     mk_row 7 2 0 (example_phases ! 0) (3 / 2) (23 / 2) SUCCESS (3 / 2),
     mk_row 7 1 1 (example_phases ! 1) (23 / 2) (33 / 2) FAILURE (3 / 2),
     mk_row 7 2 1 (example_phases ! 1) (23 / 2) (33 / 2) FAILURE (3 / 2)]"

definition example_results_second :: "(int \<times> phase_results) list" where
  "example_results_second =
    [(1, [(''A'', \<lparr>start_time = 3 / 2, end_time = 23 / 2, outcome = SUCCESS\<rparr>),
          (''B'', \<lparr>start_time = 23 / 2, end_time = 33 / 2, outcome = FAILURE\<rparr>)]),
     (2, [(''A'', \<lparr>start_time = 3 / 2, end_time = 23 / 2, outcome = SUCCESS\<rparr>),
          (''B'', \<lparr>start_time = 23 / 2, end_time = 33 / 2, outcome = FAILURE\<rparr>)])]"

subsection \<open>The heap\<close>

lemma heap_min_mem: "heap_min m xs \<in> set (m # xs)"
  by (induction xs arbitrary: m) auto

lemma heappop_Some:
  assumes "heappop q = Some (x, q')"
  shows "x \<in> set q \<and> q' = remove1 x q"
proof (cases q)
  case Nil
  with assms show ?thesis by (simp add: heappop_def)
next
  case (Cons y ys)
  with assms have "x = heap_min y ys" "q' = remove1 x q"
    by (auto simp: heappop_def Let_def)
  with heap_min_mem[of y ys] Cons show ?thesis by simp
qed

lemma heappop_None: "heappop q = None \<longleftrightarrow> q = []"
  by (simp add: heappop_def Let_def split: list.splits)

lemma pending_snoc: "pending a (q @ [x]) = pending a q @ (if is_wakeup a x then [x] else [])"
  by (simp add: pending_def)

lemma pending_remove1: "pending a (remove1 x q) = remove1 x (pending a q)"
  by (simp add: pending_def filter_remove1)

lemma pending_remove1_other: "\<not> is_wakeup a x \<Longrightarrow> pending a (remove1 x q) = pending a q"
  by (simp add: pending_remove1) (simp add: pending_def remove1_idem)

lemma pending_mem: "x \<in> set q \<Longrightarrow> is_wakeup a x \<Longrightarrow> x \<in> set (pending a q)"
  by (simp add: pending_def)

lemma is_wakeup_target: "is_wakeup a x \<Longrightarrow> target (snd (snd (snd x))) = a"
proof -
  obtain t p e ev where "x = (t, p, e, ev)" by (cases x) auto
  then show "is_wakeup a x \<Longrightarrow> target (snd (snd (snd x))) = a" by (cases ev) auto
qed

lemma failed_snoc: "failed a q \<Longrightarrow> failed a (q @ [x])"
  by (auto simp: failed_def)

lemma failed_remove1:
  "failed a q \<Longrightarrow> (\<forall>err. snd (snd (snd x)) \<noteq> Process a (Some err)) \<Longrightarrow> failed a (remove1 x q)"
  unfolding failed_def by (metis in_set_remove1 snd_conv)

subsection \<open>Chains of records\<close>

lemma start_at_0: "start_at st P 0 = st"
  by (simp add: start_at_def)

lemma start_at_Suc: "k < length P \<Longrightarrow> start_at st P (Suc k) = start_at st P k + duration (P ! k)"
  by (simp add: start_at_def take_Suc_conv_app_nth)

lemma record_chain_Nil: "record_chain P rep a st []"
  by (simp add: record_chain_def)

lemma record_chain_snoc:
  assumes "record_chain P rep a st rs" "\<forall>r\<in>set rs. phase_outcome r = SUCCESS"
    "length rs < length P"
  shows "record_chain P rep a st
           (rs @ [mk_row rep a (length rs) (P ! length rs) (start_at st P (length rs))
                    (start_at st P (length rs) + duration (P ! length rs)) oc st])"
  using assms
  by (auto simp: record_chain_def nth_append start_at_Suc less_Suc_eq mk_row_def)

lemma phase_results_of_snoc:
  "phase_results_of (rs @ [mk_row rep a idx ph cur t oc st]) =
     AList.update (name ph) \<lparr>start_time = cur, end_time = t, outcome = oc\<rparr> (phase_results_of rs)"
  by (simp add: phase_results_of_def mk_row_def)

lemma drop_eq_Cons:
  assumes "drop n P = x # xs"
  shows "n < length P \<and> P ! n = x \<and> drop (Suc n) P = xs"
proof -
  from assms have n: "n < length P" by (cases "n < length P") auto
  with assms Cons_nth_drop_Suc[OF n] show ?thesis by simp
qed

lemma asset_records_snoc:
  "asset_records b (rs @ [r]) = asset_records b rs @ (if asset_id r = b then [r] else [])"
  by (simp add: asset_records_def)

subsection \<open>One step of the event loop\<close>

lemma proc_ok_frame:
  assumes "proc_ok sc P rep g0 s b gn"
    "asset_records b (records s') = asset_records b (records s)"
    "pending b (queue s') = pending b (queue s)"
    "map_of (results s') b = map_of (results s) b"
    "failed b (queue s) \<Longrightarrow> failed b (queue s')"
  shows "proc_ok sc P rep g0 s' b gn"
  using assms by (cases gn) auto

lemma step_Continue_cases:
  assumes "step sc P rep s = Continue s'"
  obtains (ended) t p e a where "(t, p, e, Process a None) \<in> set (queue s)"
      "s' = s\<lparr>now := t, queue := remove1 (t, p, e, Process a None) (queue s)\<rparr>"
      "heappop (queue s) =
         Some ((t, p, e, Process a None), remove1 (t, p, e, Process a None) (queue s))"
  | (wake) t p e ev a where "(t, p, e, ev) \<in> set (queue s)" "is_wakeup a (t, p, e, ev)"
      "s' = resume sc P rep a (s\<lparr>now := t, queue := remove1 (t, p, e, ev) (queue s)\<rparr>)"
      "heappop (queue s) = Some ((t, p, e, ev), remove1 (t, p, e, ev) (queue s))"
proof -
  from assms obtain x q' where pop: "heappop (queue s) = Some (x, q')"
    by (auto simp: step_def split: option.splits)
  obtain t p e ev where x: "x = (t, p, e, ev)" by (cases x) auto
  from heappop_Some[OF pop] have mem: "x \<in> set (queue s)" and q': "q' = remove1 x (queue s)"
    by simp_all
  show thesis
  proof (cases ev)
    case (Initialize a)
    with assms pop x q' mem show ?thesis
      by (intro wake[of t p e ev a]) (auto simp: step_def Let_def)
  next
    case (Timeout a)
    with assms pop x q' mem show ?thesis
      by (intro wake[of t p e ev a]) (auto simp: step_def Let_def)
  next
    case (Process a err)
    with assms pop x q' mem show ?thesis
      by (intro ended[of t p e a]) (auto simp: step_def Let_def split: option.splits)
  qed
qed

lemma step_Empty: "step sc P rep s = EmptySchedule \<longleftrightarrow> queue s = []"
  by (auto simp: step_def Let_def heappop_None[symmetric] split: option.splits event.splits)

lemma step_Raise:
  "step sc P rep s = Raise err \<Longrightarrow> \<exists>t p e a. (t, p, e, Process a (Some err)) \<in> set (queue s)"
  by (auto simp: step_def Let_def split: option.splits event.splits dest!: heappop_Some) blast

lemma drop_draws_0: "drop_draws 0 g = g"
  by (simp add: drop_draws_def)

lemma drop_draws_ex: "\<exists>k. g = drop_draws k g"
  by (rule exI[of _ 0]) (simp add: drop_draws_0)

lemma drop_draws_add: "drop_draws d (drop_draws k g) = drop_draws (k + d) g"
  by (simp add: drop_draws_def add.commute add.left_commute)

lemma random_random_eq: "random_random g = (g 0, drop_draws 1 g)"
  by (simp add: random_random_def drop_draws_def)

lemma arrival_rng: "arrival sc P a g = Inr (st, g') \<Longrightarrow> g' = drop_draws 1 g"
  by (cases sc) (auto simp: random_uniform_def random_random_eq Let_def split: if_splits)

lemma arrival_Inr: "arrival sc P a g = Inr r \<Longrightarrow> can_arrive sc P"
  by (cases sc) (auto simp: can_arrive_def split: if_splits)

lemma loop_head_cases:
  obtains (fin) "loop_head a st cur pres success idx ps s = finish a pres s"
      "ps = [] \<or> \<not> success"
  | (neg) ph rest where "ps = ph # rest" "success" "duration ph < 0"
      "loop_head a st cur pres success idx ps s = (Raised ValueError, s)"
  | (yield) ph rest where "ps = ph # rest" "success" "\<not> duration ph < 0"
      "loop_head a st cur pres success idx ps s =
         (Yielded (duration ph) (AtPhase st cur pres idx ph rest), s)"
  by (cases ps) auto

lemma loop_head_frame:
  "\<exists>r s'. loop_head a st cur pres success idx ps s = (r, s') \<and> procs s' = procs s \<and>
      records s' = records s \<and> queue s' = queue s \<and> eid s' = eid s \<and> now s' = now s \<and>
      rng s' = rng s \<and>
      (results s' = results s \<or> results s' = AList.update a pres (results s))"
  by (cases rule: loop_head_cases[of a st cur pres success idx ps s])
     (auto simp: finish_def)

lemma send_frame:
  "\<exists>r s' new. send sc P rep a gn s = (r, s') \<and> procs s' = procs s \<and>
      records s' = records s @ new \<and> (\<forall>r\<in>set new. asset_id r = a) \<and>
      queue s' = queue s \<and> eid s' = eid s \<and> now s' = now s \<and>
      (results s' = results s \<or> (\<exists>pres. results s' = AList.update a pres (results s)))"
proof (cases gn)
  case Created
  then show ?thesis by (auto split: sum.splits prod.splits)
next
  case (AtArrival st)
  with loop_head_frame[of a st "now s" "[]" True 0 P s] show ?thesis by auto
next
  case (AtPhase st cur pres idx ph rest)
  obtain u g' where r: "random_random (rng s) = (u, g')" by (cases "random_random (rng s)")
  define oc where "oc = (if u < success_prob ph then SUCCESS else FAILURE)"
  define s1 where "s1 = s\<lparr>rng := g', records := records s @ [mk_row rep a idx ph cur (now s) oc st]\<rparr>"
  define pres' where "pres' = AList.update (name ph) \<lparr>start_time = cur, end_time = now s, outcome = oc\<rparr> pres"
  have eq: "send sc P rep a gn s = loop_head a st (now s) pres' (u < success_prob ph) (Suc idx) rest s1"
    by (simp add: AtPhase r Let_def oc_def s1_def pres'_def)
  from loop_head_frame[of a st "now s" pres' "u < success_prob ph" "Suc idx" rest s1]
  show ?thesis unfolding eq by (auto simp: s1_def mk_row_def)
next
  case Finished
  then show ?thesis by auto
qed

lemma resume_frame:
  assumes "procs s a = Some gn"
  shows "\<exists>gn' new x. procs (resume sc P rep a s) = (procs s)(a \<mapsto> gn') \<and>
           records (resume sc P rep a s) = records s @ new \<and> (\<forall>r\<in>set new. asset_id r = a) \<and>
           queue (resume sc P rep a s) = queue s @ [x] \<and> target (snd (snd (snd x))) = a \<and>
           (results (resume sc P rep a s) = results s \<or>
            (\<exists>pres. results (resume sc P rep a s) = AList.update a pres (results s)))"
proof -
  from send_frame[of sc P rep a gn s] obtain r s' new where
    s: "send sc P rep a gn s = (r, s')" "procs s' = procs s" "records s' = records s @ new"
       "\<forall>r\<in>set new. asset_id r = a" "queue s' = queue s"
       "results s' = results s \<or> (\<exists>pres. results s' = AList.update a pres (results s))"
    by blast
  show ?thesis
    using assms s by (cases r) (auto simp: resume_def schedule_def)
qed

subsection \<open>What a send reads from the generator\<close>

lemma arrival_agree:
  assumes "can_arrive sc P \<Longrightarrow> g 0 = g2 0"
  shows "arrival sc P a g2 = (case arrival sc P a g of Inl e \<Rightarrow> Inl e
           | Inr (st, g') \<Rightarrow> Inr (st, drop_draws 1 g2))"
  using assms
  by (cases sc) (auto simp: random_uniform_def random_random_eq Let_def can_arrive_def)

lemma loop_head_rng:
  "loop_head a st cur pres success idx ps (s\<lparr>rng := g\<rparr>) =
     (case loop_head a st cur pres success idx ps s of (r, s') \<Rightarrow> (r, s'\<lparr>rng := g\<rparr>)) \<and>
   rng (snd (loop_head a st cur pres success idx ps s)) = rng s"
  by (cases rule: loop_head_cases[of a st cur pres success idx ps s]; cases ps)
     (auto simp: finish_def)

lemma send_rng:
  assumes "consumes sc P gn = 1 \<Longrightarrow> rng s 0 = g2 0"
  shows "send sc P rep a gn (s\<lparr>rng := g2\<rparr>) =
           (case send sc P rep a gn s of
              (r, s') \<Rightarrow> (r, s'\<lparr>rng := drop_draws (consumes sc P gn) g2\<rparr>)) \<and>
         rng (snd (send sc P rep a gn s)) = drop_draws (consumes sc P gn) (rng s)"
proof (cases gn)
  case Created
  have "can_arrive sc P \<Longrightarrow> rng s 0 = g2 0" using assms Created by simp
  note ag = arrival_agree[of sc P "rng s" g2 a, OF this]
  show ?thesis
  proof (cases "arrival sc P a (rng s)")
    case (Inl e)
    then have "\<not> can_arrive sc P" by (cases sc) (auto simp: can_arrive_def Let_def random_uniform_def random_random_eq split: if_splits)
    with Inl Created ag show ?thesis by (simp add: drop_draws_0)
  next
    case (Inr r)
    obtain st g' where r: "r = (st, g')" by (cases r)
    from Inr have ca: "can_arrive sc P" by (rule arrival_Inr)
    from Inr r have g': "g' = drop_draws 1 (rng s)" using arrival_rng by simp
    from Inr r Created ca g' ag show ?thesis by simp
  qed
next
  case (AtArrival st)
  with loop_head_rng[where s=s and g=g2, of a st "now s" "[]" True 0 P] show ?thesis
    by (simp add: drop_draws_0)
next
  case (AtPhase st cur pres idx ph rest)
  from assms AtPhase have u: "rng s 0 = g2 0" by simp
  define oc where "oc = (if g2 0 < success_prob ph then SUCCESS else FAILURE)"
  define s1 where "s1 = s\<lparr>rng := drop_draws 1 (rng s),
      records := records s @ [mk_row rep a idx ph cur (now s) oc st]\<rparr>"
  define pres' where
    "pres' = AList.update (name ph) \<lparr>start_time = cur, end_time = now s, outcome = oc\<rparr> pres"
  have eq1: "send sc P rep a gn s =
      loop_head a st (now s) pres' (g2 0 < success_prob ph) (Suc idx) rest s1"
    by (simp add: AtPhase random_random_eq u Let_def oc_def s1_def pres'_def)
  have "s\<lparr>rng := drop_draws 1 g2,
      records := records s @ [mk_row rep a idx ph cur (now s) oc st]\<rparr> =
      s1\<lparr>rng := drop_draws 1 g2\<rparr>"
    by (simp add: s1_def)
  then have eq2: "send sc P rep a gn (s\<lparr>rng := g2\<rparr>) =
      loop_head a st (now s) pres' (g2 0 < success_prob ph) (Suc idx) rest
        (s1\<lparr>rng := drop_draws 1 g2\<rparr>)"
    by (simp add: AtPhase random_random_eq Let_def oc_def pres'_def)
  from loop_head_rng[where s=s1 and g="drop_draws 1 g2",
      of a st "now s" pres' "g2 0 < success_prob ph" "Suc idx" rest]
  show ?thesis unfolding eq1 eq2 by (simp add: AtPhase s1_def)
next
  case Finished
  then show ?thesis by (simp add: drop_draws_0)
qed

lemma resume_rng:
  assumes "procs s a = Some gn" "consumes sc P gn = 1 \<Longrightarrow> rng s 0 = g2 0"
  shows "resume sc P rep a (s\<lparr>rng := g2\<rparr>) =
           (resume sc P rep a s)\<lparr>rng := drop_draws (consumes sc P gn) g2\<rparr> \<and>
         rng (resume sc P rep a s) = drop_draws (consumes sc P gn) (rng s)"
proof -
  obtain r s' where s: "send sc P rep a gn s = (r, s')" by (cases "send sc P rep a gn s")
  from send_frame[of sc P rep a gn s] s have f: "procs s' = procs s" "queue s' = queue s"
    "eid s' = eid s" "now s' = now s" by auto
  from send_rng[where sc=sc and P=P and gn=gn and s=s and ?g2.0=g2 and rep=rep and a=a] assms(2) s
  have 1: "send sc P rep a gn (s\<lparr>rng := g2\<rparr>) = (r, s'\<lparr>rng := drop_draws (consumes sc P gn) g2\<rparr>)"
    and 2: "rng s' = drop_draws (consumes sc P gn) (rng s)" by simp_all
  show ?thesis
    using assms(1) s 1 2 f by (cases r) (simp_all add: resume_def schedule_def)
qed

subsection \<open>The invariant is preserved\<close>

lemma asset_records_other:
  "\<forall>r\<in>set new. asset_id r = a \<Longrightarrow> b \<noteq> a \<Longrightarrow> asset_records b (rs @ new) = asset_records b rs"
  by (auto simp: asset_records_def filter_empty_conv)

lemma pop_ok:
  assumes "proc_ok sc P rep g0 s b gn" "\<not> is_wakeup b x"
    "\<forall>err. snd (snd (snd x)) \<noteq> Process b (Some err)"
  shows "proc_ok sc P rep g0 (s\<lparr>now := t, queue := remove1 x (queue s)\<rparr>) b gn"
  using assms
  by (intro proc_ok_frame[OF assms(1)]) (simp_all add: pending_remove1_other failed_remove1)

lemma resume_others:
  assumes "procs s a = Some gna" "b \<noteq> a" "proc_ok sc P rep g0 s b gn"
  shows "proc_ok sc P rep g0 (resume sc P rep a s) b gn"
proof -
  from resume_frame[OF assms(1), of sc P rep] obtain gn' new x where
    f: "records (resume sc P rep a s) = records s @ new" "\<forall>r\<in>set new. asset_id r = a"
       "queue (resume sc P rep a s) = queue s @ [x]" "target (snd (snd (snd x))) = a"
       "results (resume sc P rep a s) = results s \<or>
          (\<exists>pres. results (resume sc P rep a s) = AList.update a pres (results s))"
    by blast
  have nw: "\<not> is_wakeup b x" using is_wakeup_target[of b x] f(4) assms(2) by auto
  show ?thesis
  proof (rule proc_ok_frame[OF assms(3)])
    show "asset_records b (records (resume sc P rep a s)) = asset_records b (records s)"
      using asset_records_other[OF f(2) assms(2)] f(1) by simp
    show "pending b (queue (resume sc P rep a s)) = pending b (queue s)"
      using f(3) nw by (simp add: pending_snoc)
    show "map_of (results (resume sc P rep a s)) b = map_of (results s) b"
      using f(5) assms(2) by (auto simp: update_conv')
    show "failed b (queue s) \<Longrightarrow> failed b (queue (resume sc P rep a s))"
      using f(3) by (simp add: failed_snoc)
  qed
qed

lemma resume_Created_ok:
  assumes "procs s a = Some Created" "asset_records a (records s) = []"
    "map_of (results s) a = None" "pending a (queue s) = []" "now s = 0"
    and k: "rng s = drop_draws k g0"
  shows "\<exists>gn'. procs (resume sc P rep a s) a = Some gn' \<and>
           proc_ok sc P rep g0 (resume sc P rep a s) a gn'"
proof (cases "arrival sc P a (rng s)")
  case (Inl e)
  with assms show ?thesis
    by (auto simp: resume_def schedule_def pending_snoc failed_def)
next
  case (Inr r)
  obtain st g' where r: "r = (st, g')" by (cases r)
  from Inr have "can_arrive sc P" by (rule arrival_Inr)
  moreover have "arrived sc P a g0 st"
    using Inr r arrival_rng[of sc P a "rng s" st g'] unfolding arrived_def k
    by (auto simp: drop_draws_add intro!: exI[of _ k])
  ultimately show ?thesis using assms Inr r
    by (auto simp: resume_def schedule_def pending_snoc failed_def)
qed

lemma resume_AtArrival_ok:
  assumes "procs s a = Some (AtArrival st)" "asset_records a (records s) = []"
    "map_of (results s) a = None" "pending a (queue s) = []" "now s = st" "can_arrive sc P"
    "arrived sc P a g0 st"
  shows "\<exists>gn'. procs (resume sc P rep a s) a = Some gn' \<and>
           proc_ok sc P rep g0 (resume sc P rep a s) a gn'"
proof (cases rule: loop_head_cases[of a st "now s" "[]" True 0 P s])
  case fin
  then have "P = []" by simp
  with assms fin show ?thesis
    by (auto simp: resume_def schedule_def finish_def pending_snoc update_conv'
        record_chain_Nil complete_def phase_results_of_def)
next
  case (neg ph rest)
  with assms show ?thesis
    by (auto simp: resume_def schedule_def pending_snoc failed_def)
next
  case (yield ph rest)
  with assms show ?thesis
    by (auto simp: resume_def schedule_def pending_snoc start_at_0 record_chain_Nil
        phase_results_of_def)
qed

lemma resume_AtPhase_ok:
  assumes p: "procs s a = Some (AtPhase st cur pres idx ph rest)"
    and rs: "length (asset_records a (records s)) = idx" "idx < length P" "ph = P ! idx"
      "rest = drop (Suc idx) P" "cur = start_at st P idx"
      "record_chain P rep a st (asset_records a (records s))"
      "\<forall>r\<in>set (asset_records a (records s)). phase_outcome r = SUCCESS"
      "pres = phase_results_of (asset_records a (records s))"
      "map_of (results s) a = None" "can_arrive sc P" "arrived sc P a g0 st"
    and q: "pending a (queue s) = []" "now s = cur + duration ph"
  shows "\<exists>gn'. procs (resume sc P rep a s) a = Some gn' \<and>
           proc_ok sc P rep g0 (resume sc P rep a s) a gn'"
proof -
  obtain u g' where r: "random_random (rng s) = (u, g')" by (cases "random_random (rng s)")
  define oc where "oc = (if u < success_prob ph then SUCCESS else FAILURE)"
  define row where "row = mk_row rep a idx ph cur (now s) oc st"
  define s1 where "s1 = s\<lparr>rng := g', records := records s @ [row]\<rparr>"
  define pres' where
    "pres' = AList.update (name ph) \<lparr>start_time = cur, end_time = now s, outcome = oc\<rparr> pres"
  define rs' where "rs' = asset_records a (records s) @ [row]"
  have eq: "send sc P rep a (AtPhase st cur pres idx ph rest) s =
      loop_head a st (now s) pres' (u < success_prob ph) (Suc idx) rest s1"
    by (simp add: r Let_def oc_def s1_def pres'_def row_def)
  have row_id: "asset_id row = a" "phase_outcome row = oc" by (simp_all add: row_def mk_row_def)
  have rs1: "asset_records a (records s1) = rs'"
    by (simp add: s1_def rs'_def asset_records_snoc row_id)
  have chain: "record_chain P rep a st rs'"
    unfolding rs'_def row_def using record_chain_snoc[OF rs(6,7), of oc] rs(1,2,3,5) q(2)
    by simp
  have pres: "pres' = phase_results_of rs'"
    unfolding rs'_def row_def pres'_def by (simp add: phase_results_of_snoc rs(8))
  have len: "length rs' = Suc idx" "rs' \<noteq> []" "last rs' = row"
    by (simp_all add: rs'_def rs(1))
  have now: "now s = start_at st P (Suc idx)"
    using q(2) rs(2,3,5) by (simp add: start_at_Suc)
  show ?thesis
  proof (cases rule: loop_head_cases[of a st "now s" pres' "u < success_prob ph" "Suc idx" rest s1])
    case fin
    have "complete P rs'"
    proof -
      from fin(2) have "oc = FAILURE \<or> (length rs' = length P \<and> oc = SUCCESS)"
        using rs(2,4) len(1) by (auto simp: oc_def)
      with len rs(2) row_id show ?thesis by (auto simp: complete_def)
    qed
    with p eq fin(1) rs1 chain pres q(1) rs(10,11) show ?thesis
      by (auto simp: resume_def schedule_def finish_def pending_snoc update_conv' s1_def)
  next
    case (neg ph' rest')
    with p eq rs(9) q(1) show ?thesis
      by (auto simp: resume_def schedule_def pending_snoc failed_def s1_def)
  next
    case (yield ph' rest')
    from yield(1) rs(4) have d: "Suc idx < length P" "P ! Suc idx = ph'" "drop (Suc (Suc idx)) P = rest'"
      using drop_eq_Cons[of "Suc idx" P ph' rest'] by simp_all
    have allS: "\<forall>r\<in>set rs'. phase_outcome r = SUCCESS"
      using rs(7) yield(2) row_id by (auto simp: rs'_def oc_def)
    from p eq yield(4) rs1 chain pres q(1) rs(9,10,11) d allS len(1) now show ?thesis
      by (auto simp: resume_def schedule_def pending_snoc s1_def)
  qed
qed

lemma wakeup_unique: "is_wakeup a x \<Longrightarrow> is_wakeup b x \<Longrightarrow> a = b"
  using is_wakeup_target by metis

lemma wakeup_not_Process: "is_wakeup a x \<Longrightarrow> snd (snd (snd x)) \<noteq> Process b err"
proof -
  obtain t p e ev where "x = (t, p, e, ev)" by (cases x) auto
  then show "is_wakeup a x \<Longrightarrow> snd (snd (snd x)) \<noteq> Process b err" by (cases ev) auto
qed

lemma wake_self_ok:
  assumes ok: "proc_ok sc P rep g0 s a gn" and p: "procs s a = Some gn"
    and x: "x \<in> set (queue s)" "is_wakeup a x" "x = (t, p', e, ev)"
    and k: "rng s = drop_draws k g0"
  defines "s1 \<equiv> s\<lparr>now := t, queue := remove1 x (queue s)\<rparr>"
  shows "\<exists>gn'. procs (resume sc P rep a s1) a = Some gn' \<and>
           proc_ok sc P rep g0 (resume sc P rep a s1) a gn'"
proof -
  have mem: "x \<in> set (pending a (queue s))" using x(1,2) by (rule pending_mem)
  have p1: "procs s1 a = Some gn" "records s1 = records s" "results s1 = results s"
    "now s1 = t" "pending a (queue s1) = remove1 x (pending a (queue s))"
    "rng s1 = drop_draws k g0"
    by (simp_all add: s1_def p pending_remove1 k)
  show ?thesis
  proof (cases gn)
    case Created
    with ok mem x(3) have "pending a (queue s) = [x]" "t = 0" by auto
    with ok Created p1 show ?thesis by (intro resume_Created_ok[where k=k]) auto
  next
    case (AtArrival st)
    with ok mem x(3) have "pending a (queue s) = [x]" "t = st" by auto
    with ok AtArrival p1 show ?thesis by (intro resume_AtArrival_ok) auto
  next
    case (AtPhase st cur pres idx ph rest)
    with ok mem x(3) have "pending a (queue s) = [x]" "t = cur + duration ph" by auto
    with ok AtPhase p1 show ?thesis by (intro resume_AtPhase_ok[where pres=pres and rest=rest]) auto
  next
    case Finished
    with ok mem show ?thesis by simp
  qed
qed

lemma step_inv:
  assumes inv: "sim_inv sc P rep g0 s" and st: "step sc P rep s = Continue s'"
  shows "sim_inv sc P rep g0 s' \<and> dom (procs s') = dom (procs s)"
  using st
proof (cases rule: step_Continue_cases)
  case (ended t p e a)
  let ?x = "(t, p, e, Process a None)"
  have "proc_ok sc P rep g0 s' b gn" if "procs s' b = Some gn" for b gn
  proof -
    from that inv ended(2) have "proc_ok sc P rep g0 s b gn" by (simp add: sim_inv_def)
    then show ?thesis unfolding ended(2) by (rule pop_ok) simp_all
  qed
  moreover have "\<forall>x\<in>set (queue s'). target (snd (snd (snd x))) \<in> dom (procs s')"
    using inv unfolding ended(2) sim_inv_def by (auto dest: notin_set_remove1)
  ultimately show ?thesis using inv ended(2) unfolding sim_inv_def by simp
next
  case (wake t p e ev a)
  let ?x = "(t, p, e, ev)"
  let ?s1 = "s\<lparr>now := t, queue := remove1 ?x (queue s)\<rparr>"
  from inv wake(1) is_wakeup_target[OF wake(2)] have "a \<in> dom (procs s)"
    by (fastforce simp: sim_inv_def)
  then obtain gn where p: "procs s a = Some gn" by auto
  with inv have ok: "proc_ok sc P rep g0 s a gn" by (simp add: sim_inv_def)
  from inv obtain k where k: "rng s = drop_draws k g0" unfolding sim_inv_def by blast
  from wake_self_ok[OF ok p wake(1,2) refl k] wake(3) obtain gn' where
    self: "procs s' a = Some gn'" "proc_ok sc P rep g0 s' a gn'" by auto
  have p1: "procs ?s1 a = Some gn" using p by simp
  have "\<exists>gn'' new y. procs s' = (procs s)(a \<mapsto> gn'') \<and> records s' = records s @ new \<and>
       (\<forall>r\<in>set new. asset_id r = a) \<and> queue s' = remove1 ?x (queue s) @ [y] \<and>
       target (snd (snd (snd y))) = a \<and>
       (results s' = results s \<or> (\<exists>pres. results s' = AList.update a pres (results s)))"
    using resume_frame[OF p1, of sc P rep] unfolding wake(3) by simp
  then obtain gn'' new y where
    f: "procs s' = (procs s)(a \<mapsto> gn'')" "records s' = records s @ new"
       "\<forall>r\<in>set new. asset_id r = a" "queue s' = remove1 ?x (queue s) @ [y]"
       "target (snd (snd (snd y))) = a"
       "results s' = results s \<or> (\<exists>pres. results s' = AList.update a pres (results s))"
    by blast
  have dom: "dom (procs s') = dom (procs s)" using f(1) p by auto
  have "proc_ok sc P rep g0 s' b gnb" if b: "procs s' b = Some gnb" for b gnb
  proof (cases "b = a")
    case True
    with b self show ?thesis by simp
  next
    case False
    with b f(1) have "procs s b = Some gnb" by simp
    with inv have "proc_ok sc P rep g0 s b gnb" by (simp add: sim_inv_def)
    then have "proc_ok sc P rep g0 ?s1 b gnb"
      using wakeup_unique[OF wake(2), of b] wakeup_not_Process[OF wake(2)] False
      by (intro pop_ok) auto
    with resume_others[OF p1 False, of sc P rep g0 gnb] wake(3) show ?thesis by simp
  qed
  moreover have "\<forall>x\<in>set (queue s'). target (snd (snd (snd x))) \<in> dom (procs s')"
  proof
    fix z assume "z \<in> set (queue s')"
    with f(4) have "z = y \<or> z \<in> set (queue s)" by (auto dest: notin_set_remove1)
    with f(5) inv dom \<open>a \<in> dom (procs s)\<close> show "target (snd (snd (snd z))) \<in> dom (procs s')"
      by (auto simp: sim_inv_def)
  qed
  moreover have "\<forall>r\<in>set (records s'). asset_id r \<in> dom (procs s')"
    using f(2,3) inv dom \<open>a \<in> dom (procs s)\<close> by (auto simp: sim_inv_def)
  moreover have "fst ` set (results s') \<subseteq> dom (procs s')"
  proof -
    from f(6) have "fst ` set (results s') \<subseteq> insert a (fst ` set (results s))"
      by (elim disjE exE) (simp_all add: dom_update subset_insertI)
    moreover from inv have "fst ` set (results s) \<subseteq> dom (procs s)" by (simp add: sim_inv_def)
    ultimately show ?thesis using dom \<open>a \<in> dom (procs s)\<close> by blast
  qed
  moreover have "distinct (map fst (results s'))"
    using f(6) inv by (auto simp: sim_inv_def distinct_update)
  moreover have "\<exists>k'. rng s' = drop_draws k' g0"
  proof -
    from resume_rng[OF p1, of sc P "rng ?s1" rep] k
    have "rng s' = drop_draws (k + consumes sc P gn) g0"
      unfolding wake(3) by (simp add: drop_draws_add)
    then show ?thesis ..
  qed
  ultimately show ?thesis using dom unfolding sim_inv_def by blast
qed

subsection \<open>Termination\<close>

lemma weight_wakeup:
  "is_wakeup a x \<Longrightarrow> pr a = Some gn \<Longrightarrow> weight P pr x = 2 + remaining P gn"
proof -
  obtain t p e ev where "x = (t, p, e, ev)" by (cases x) auto
  then show "is_wakeup a x \<Longrightarrow> pr a = Some gn \<Longrightarrow> weight P pr x = 2 + remaining P gn"
    by (cases ev) auto
qed

lemma weight_upd_other: "\<not> is_wakeup a x \<Longrightarrow> weight P (pr(a \<mapsto> gn)) x = weight P pr x"
proof -
  obtain t p e ev where "x = (t, p, e, ev)" by (cases x) auto
  then show "\<not> is_wakeup a x \<Longrightarrow> weight P (pr(a \<mapsto> gn)) x = weight P pr x"
    by (cases ev) auto
qed

lemma resume_weight:
  assumes "procs s a = Some gn" "gn \<noteq> Finished"
  shows "\<exists>y gn'. queue (resume sc P rep a s) = queue s @ [y] \<and>
           procs (resume sc P rep a s) = (procs s)(a \<mapsto> gn') \<and>
           weight P (procs (resume sc P rep a s)) y < 2 + remaining P gn"
proof (cases gn)
  case Created
  with assms show ?thesis
    by (auto simp: resume_def schedule_def split: sum.splits)
next
  case (AtArrival st)
  with assms show ?thesis
    by (cases rule: loop_head_cases[of a st "now s" "[]" True 0 P s])
       (auto simp: resume_def schedule_def finish_def)
next
  case (AtPhase st cur pres idx ph rest)
  obtain u g' where r: "random_random (rng s) = (u, g')" by (cases "random_random (rng s)")
  define oc where "oc = (if u < success_prob ph then SUCCESS else FAILURE)"
  define s1 where "s1 = s\<lparr>rng := g', records := records s @ [mk_row rep a idx ph cur (now s) oc st]\<rparr>"
  define pres' where
    "pres' = AList.update (name ph) \<lparr>start_time = cur, end_time = now s, outcome = oc\<rparr> pres"
  have eq: "send sc P rep a (AtPhase st cur pres idx ph rest) s =
      loop_head a st (now s) pres' (u < success_prob ph) (Suc idx) rest s1"
    by (simp add: r Let_def oc_def s1_def pres'_def)
  from assms AtPhase eq show ?thesis
    by (cases rule: loop_head_cases[of a st "now s" pres' "u < success_prob ph" "Suc idx" rest s1])
       (auto simp: resume_def schedule_def finish_def s1_def)
next
  case Finished
  with assms show ?thesis by simp
qed

lemma step_decreases:
  assumes inv: "sim_inv sc P rep g0 s" and st: "step sc P rep s = Continue s'"
  shows "steps_left P s' < steps_left P s"
  using st
proof (cases rule: step_Continue_cases)
  case (ended t p e a)
  from sum_list_map_remove1[OF ended(1), of "weight P (procs s)"] show ?thesis
    by (simp add: steps_left_def ended(2))
next
  case (wake t p e ev a)
  let ?x = "(t, p, e, ev)"
  let ?s1 = "s\<lparr>now := t, queue := remove1 ?x (queue s)\<rparr>"
  from inv wake(1) is_wakeup_target[OF wake(2)] have "a \<in> dom (procs s)"
    by (fastforce simp: sim_inv_def)
  then obtain gn where p: "procs s a = Some gn" by auto
  with inv have ok: "proc_ok sc P rep g0 s a gn" by (simp add: sim_inv_def)
  have mem: "?x \<in> set (pending a (queue s))" using wake(1,2) by (rule pending_mem)
  have pend: "pending a (queue s) = [?x]" and nf: "gn \<noteq> Finished"
    using ok mem by (cases gn; auto)+
  have p1: "procs ?s1 a = Some gn" using p by simp
  have "\<exists>y gn'. queue s' = remove1 ?x (queue s) @ [y] \<and> procs s' = (procs s)(a \<mapsto> gn') \<and>
          weight P (procs s') y < 2 + remaining P gn"
    using resume_weight[OF p1 nf, of sc P rep] unfolding wake(3) by simp
  then obtain y gn' where f: "queue s' = remove1 ?x (queue s) @ [y]"
    "procs s' = (procs s)(a \<mapsto> gn')" "weight P (procs s') y < 2 + remaining P gn"
    by blast
  have wx: "weight P (procs s) ?x = 2 + remaining P gn" using wake(2) p by (rule weight_wakeup)
  have "\<not> is_wakeup a z" if "z \<in> set (remove1 ?x (queue s))" for z
  proof
    assume "is_wakeup a z"
    with that have "z \<in> set (pending a (remove1 ?x (queue s)))" by (simp add: pending_def)
    then show False by (simp add: pending_remove1 pend)
  qed
  then have same: "map (weight P (procs s')) (remove1 ?x (queue s)) =
      map (weight P (procs s)) (remove1 ?x (queue s))"
    unfolding f(2) by (intro map_cong refl weight_upd_other)
  from sum_list_map_remove1[OF wake(1), of "weight P (procs s)"] wx f(3) show ?thesis
    by (simp add: steps_left_def f(1) same)
qed

lemma run_total_inv:
  assumes "sim_inv sc P rep g0 s"
  shows "\<exists>r. run sc P rep s = Some r \<and>
           (case r of Inl err \<Rightarrow> True
            | Inr s' \<Rightarrow> sim_inv sc P rep g0 s' \<and> queue s' = [] \<and> dom (procs s') = dom (procs s))"
  using assms
proof (induction "steps_left P s" arbitrary: s rule: less_induct)
  case less
  show ?case
  proof (cases "step sc P rep s")
    case EmptySchedule
    then have "queue s = []" by (simp add: step_Empty)
    with less.prems show ?thesis by (subst run.simps) (simp add: EmptySchedule)
  next
    case (Raise err)
    then show ?thesis by (subst run.simps) simp
  next
    case (Continue s')
    from step_inv[OF less.prems Continue] have i: "sim_inv sc P rep g0 s'"
      and d: "dom (procs s') = dom (procs s)" by simp_all
    from less.hyps[OF step_decreases[OF less.prems Continue] i] obtain r where
      r: "run sc P rep s' = Some r"
         "case r of Inl err \<Rightarrow> True
          | Inr s'' \<Rightarrow> sim_inv sc P rep g0 s'' \<and> queue s'' = [] \<and> dom (procs s'') = dom (procs s')"
      by blast
    have "run sc P rep s = Some r" by (subst run.simps) (simp add: Continue r(1))
    with r(2) d show ?thesis by (cases r) auto
  qed
qed

subsection \<open>From the initial state to the returned tables\<close>

lemma Environment_initial: "initial sc P rep g (Environment g)"
  by (simp add: initial_def sim_inv_def Environment_def drop_draws_ex)

lemma process_initial:
  assumes "initial sc P rep g s" "a \<notin> dom (procs s)"
  shows "initial sc P rep g (process a s) \<and> dom (procs (process a s)) = insert a (dom (procs s))"
proof -
  let ?x = "(0, URGENT, eid s, Initialize a)"
  from assms(1) have inv: "sim_inv sc P rep g s" and z: "now s = 0" "records s = []" "results s = []"
    "rng s = g" by (simp_all add: initial_def)
  have eq: "process a s = s\<lparr>procs := (procs s)(a \<mapsto> Created), queue := queue s @ [?x],
      eid := Suc (eid s)\<rparr>"
    by (simp add: process_def schedule_def z)
  have none: "pending a (queue s) = []"
  proof -
    have "\<not> is_wakeup a y" if "y \<in> set (queue s)" for y
      using that inv assms(2) is_wakeup_target[of a y] by (auto simp: sim_inv_def)
    then show ?thesis by (simp add: pending_def filter_empty_conv)
  qed
  have "proc_ok sc P rep g (process a s) b gn" if b: "procs (process a s) b = Some gn" for b gn
  proof (cases "b = a")
    case True
    with b eq have "gn = Created" by simp
    with True none z show ?thesis by (simp add: eq pending_snoc asset_records_def)
  next
    case False
    with b eq have "procs s b = Some gn" by simp
    with inv have ok: "proc_ok sc P rep g s b gn" by (simp add: sim_inv_def)
    show ?thesis
      using False by (intro proc_ok_frame[OF ok]) (simp_all add: eq pending_snoc failed_snoc)
  qed
  then have 1: "\<forall>b gn. procs (process a s) b = Some gn \<longrightarrow> proc_ok sc P rep g (process a s) b gn"
    by blast
  have 2: "\<forall>x\<in>set (queue (process a s)). target (snd (snd (snd x))) \<in> dom (procs (process a s))"
    using inv by (auto simp: eq sim_inv_def)
  have 3: "now (process a s) = 0" "records (process a s) = []" "results (process a s) = []"
    "rng (process a s) = g"
    using z by (simp_all add: eq)
  have 4: "dom (procs (process a s)) = insert a (dom (procs s))"
    by (simp add: eq)
  have "sim_inv sc P rep g (process a s)"
    unfolding sim_inv_def using 1 2 by (simp add: 3 drop_draws_ex)
  then have "initial sc P rep g (process a s)"
    unfolding initial_def by (simp add: 3)
  with 4 show ?thesis by simp
qed

lemma fold_process_initial:
  assumes "initial sc P rep g s" "distinct as" "set as \<inter> dom (procs s) = {}"
  shows "initial sc P rep g (fold process as s) \<and>
           dom (procs (fold process as s)) = dom (procs s) \<union> set as"
  using assms
proof (induction as arbitrary: s)
  case Nil
  then show ?case by simp
next
  case (Cons a as)
  from Cons.prems have a: "a \<notin> dom (procs s)" "a \<notin> set as" "distinct as"
    "set as \<inter> dom (procs s) = {}" by auto
  from process_initial[OF Cons.prems(1) a(1)]
  have i: "initial sc P rep g (process a s)"
    and d: "dom (procs (process a s)) = insert a (dom (procs s))"
    by simp_all
  from a(2,4) have "set as \<inter> dom (procs (process a s)) = {}" unfolding d by blast
  from Cons.IH[OF i a(3) this] show ?case unfolding d by simp
qed

lemma start_initial:
  "initial sc P rep g (fold process [1..n] (Environment g)) \<and>
     dom (procs (fold process [1..n] (Environment g))) = {1..n}"
  using fold_process_initial[OF Environment_initial, of "[1..n]" g sc P rep]
  by (simp add: Environment_def)

lemma quiescent_proc:
  assumes "sim_inv sc P rep g s" "queue s = []" "a \<in> dom (procs s)"
  shows "(\<exists>st. record_chain P rep a st (asset_records a (records s)) \<and> arrived sc P a g st) \<and>
         complete P (asset_records a (records s)) \<and> can_arrive sc P \<and>
         map_of (results s) a = Some (phase_results_of (asset_records a (records s)))"
proof -
  from assms(3) obtain gn where p: "procs s a = Some gn" by auto
  with assms(1) have "proc_ok sc P rep g s a gn" by (simp add: sim_inv_def)
  with assms(2) show ?thesis by (cases gn) (auto simp: pending_def failed_def)
qed

lemma run_simulation_total: "\<exists>r. run_simulation sc P n rep g = Some r"
proof -
  from start_initial[of sc P rep g n] have "sim_inv sc P rep g (fold process [1..n] (Environment g))"
    by (simp add: initial_def)
  from run_total_inv[OF this] obtain r where
    "run sc P rep (fold process [1..n] (Environment g)) = Some r" by blast
  then show ?thesis by (cases r) (simp_all add: run_simulation_def)
qed

lemma run_simulation_Inr:
  assumes "run_simulation sc P n rep g = Some (Inr ((res, recs), g'))"
  shows "(\<forall>a\<in>{1..n}. (\<exists>st. record_chain P rep a st (asset_records a recs) \<and> arrived sc P a g st) \<and>
            complete P (asset_records a recs) \<and>
            map_of res a = Some (phase_results_of (asset_records a recs))) \<and>
         asset_id ` set recs \<subseteq> {1..n} \<and> fst ` set res \<subseteq> {1..n} \<and> distinct (map fst res) \<and>
         (0 < n \<longrightarrow> can_arrive sc P)"
proof -
  let ?s0 = "fold process [1..n] (Environment g)"
  from start_initial[of sc P rep g n] have inv0: "sim_inv sc P rep g ?s0"
    and d0: "dom (procs ?s0) = {1..n}" by (simp_all add: initial_def)
  from run_total_inv[OF inv0] obtain r where
    r: "run sc P rep ?s0 = Some r"
       "case r of Inl err \<Rightarrow> True
        | Inr s' \<Rightarrow> sim_inv sc P rep g s' \<and> queue s' = [] \<and> dom (procs s') = dom (procs ?s0)"
    by blast
  from assms r(1) obtain s' where s': "r = Inr s'" "res = results s'" "recs = records s'"
    by (cases r) (auto simp: run_simulation_def)
  with r(2) d0 have inv: "sim_inv sc P rep g s'" and q: "queue s' = []"
    and d: "dom (procs s') = {1..n}" by simp_all
  have all: "(\<exists>st. record_chain P rep a st (asset_records a recs) \<and> arrived sc P a g st) \<and>
            complete P (asset_records a recs) \<and> can_arrive sc P \<and>
            map_of res a = Some (phase_results_of (asset_records a recs))"
    if "a \<in> {1..n}" for a
    using quiescent_proc[OF inv q, of a] d s'(2,3) that by simp
  then have a: "\<forall>a\<in>{1..n}. (\<exists>st. record_chain P rep a st (asset_records a recs) \<and> arrived sc P a g st) \<and>
            complete P (asset_records a recs) \<and>
            map_of res a = Some (phase_results_of (asset_records a recs))"
    by blast
  have b: "0 < n \<longrightarrow> can_arrive sc P"
  proof
    assume "0 < n"
    then have "(1::int) \<in> {1..n}" by simp
    from all[OF this] show "can_arrive sc P" by blast
  qed
  from inv have c0: "\<forall>r\<in>set (records s'). asset_id r \<in> dom (procs s')"
    "fst ` set (results s') \<subseteq> dom (procs s')" "distinct (map fst (results s'))"
    unfolding sim_inv_def by blast+
  then have c: "asset_id ` set recs \<subseteq> {1..n}" "fst ` set res \<subseteq> {1..n}"
    "distinct (map fst res)"
    unfolding d s'(2,3) by blast+
  from a b c show ?thesis by blast
qed

subsection \<open>Dependence on the draws\<close>

lemma draw_weight_wakeup:
  "is_wakeup a x \<Longrightarrow> pr a = Some gn \<Longrightarrow> draw_weight P pr x = draws_needed P gn"
proof -
  obtain t p e ev where "x = (t, p, e, ev)" by (cases x) auto
  then show "is_wakeup a x \<Longrightarrow> pr a = Some gn \<Longrightarrow> draw_weight P pr x = draws_needed P gn"
    by (cases ev) auto
qed

lemma draw_weight_upd_other:
  "\<not> is_wakeup a x \<Longrightarrow> draw_weight P (pr(a \<mapsto> gn)) x = draw_weight P pr x"
proof -
  obtain t p e ev where "x = (t, p, e, ev)" by (cases x) auto
  then show "\<not> is_wakeup a x \<Longrightarrow> draw_weight P (pr(a \<mapsto> gn)) x = draw_weight P pr x"
    by (cases ev) auto
qed

lemma resume_draws:
  assumes "procs s a = Some gn" "gn \<noteq> Finished"
  shows "\<exists>y gn'. queue (resume sc P rep a s) = queue s @ [y] \<and>
           procs (resume sc P rep a s) = (procs s)(a \<mapsto> gn') \<and>
           draw_weight P (procs (resume sc P rep a s)) y + consumes sc P gn \<le> draws_needed P gn"
proof (cases gn)
  case Created
  with assms show ?thesis
    by (auto simp: resume_def schedule_def split: sum.splits)
next
  case (AtArrival st)
  with assms show ?thesis
    by (cases rule: loop_head_cases[of a st "now s" "[]" True 0 P s])
       (auto simp: resume_def schedule_def finish_def)
next
  case (AtPhase st cur pres idx ph rest)
  obtain u g' where r: "random_random (rng s) = (u, g')" by (cases "random_random (rng s)")
  define oc where "oc = (if u < success_prob ph then SUCCESS else FAILURE)"
  define s1 where "s1 = s\<lparr>rng := g', records := records s @ [mk_row rep a idx ph cur (now s) oc st]\<rparr>"
  define pres' where
    "pres' = AList.update (name ph) \<lparr>start_time = cur, end_time = now s, outcome = oc\<rparr> pres"
  have eq: "send sc P rep a (AtPhase st cur pres idx ph rest) s =
      loop_head a st (now s) pres' (u < success_prob ph) (Suc idx) rest s1"
    by (simp add: r Let_def oc_def s1_def pres'_def)
  from assms AtPhase eq show ?thesis
    by (cases rule: loop_head_cases[of a st "now s" pres' "u < success_prob ph" "Suc idx" rest s1])
       (auto simp: resume_def schedule_def finish_def s1_def)
next
  case Finished
  with assms show ?thesis by simp
qed

lemma wake_draws:
  assumes inv: "sim_inv sc P rep g0 s" and x: "x \<in> set (queue s)" "is_wakeup a x"
    and p: "procs s a = Some gn"
  shows "draws_left P (resume sc P rep a (s\<lparr>now := t, queue := remove1 x (queue s)\<rparr>)) +
           consumes sc P gn \<le> draws_left P s"
proof -
  let ?s1 = "s\<lparr>now := t, queue := remove1 x (queue s)\<rparr>"
  let ?s' = "resume sc P rep a ?s1"
  from p inv have ok: "proc_ok sc P rep g0 s a gn" by (simp add: sim_inv_def)
  have mem: "x \<in> set (pending a (queue s))" using x by (rule pending_mem)
  have pend: "pending a (queue s) = [x]" and nf: "gn \<noteq> Finished"
    using ok mem by (cases gn; auto)+
  have p1: "procs ?s1 a = Some gn" using p by simp
  have "\<exists>y gn'. queue ?s' = remove1 x (queue s) @ [y] \<and> procs ?s' = (procs s)(a \<mapsto> gn') \<and>
          draw_weight P (procs ?s') y + consumes sc P gn \<le> draws_needed P gn"
    using resume_draws[OF p1 nf, of sc P rep] by simp
  then obtain y gn' where f: "queue ?s' = remove1 x (queue s) @ [y]"
    "procs ?s' = (procs s)(a \<mapsto> gn')"
    "draw_weight P (procs ?s') y + consumes sc P gn \<le> draws_needed P gn"
    by blast
  have wx: "draw_weight P (procs s) x = draws_needed P gn" using x(2) p by (rule draw_weight_wakeup)
  have "\<not> is_wakeup a z" if "z \<in> set (remove1 x (queue s))" for z
  proof
    assume "is_wakeup a z"
    with that have "z \<in> set (pending a (remove1 x (queue s)))" by (simp add: pending_def)
    then show False by (simp add: pending_remove1 pend)
  qed
  then have same: "map (draw_weight P (procs ?s')) (remove1 x (queue s)) =
      map (draw_weight P (procs s)) (remove1 x (queue s))"
    unfolding f(2) by (intro map_cong refl draw_weight_upd_other)
  from sum_list_map_remove1[OF x(1), of "draw_weight P (procs s)"] wx f(3) show ?thesis
    by (simp add: draws_left_def f(1) same)
qed

lemma step_agree:
  assumes inv: "sim_inv sc P rep g0 s" and ag: "\<forall>i<draws_left P s. rng s i = g2 i"
  shows "case step sc P rep s of
           EmptySchedule \<Rightarrow> step sc P rep (s\<lparr>rng := g2\<rparr>) = EmptySchedule
         | Raise err \<Rightarrow> step sc P rep (s\<lparr>rng := g2\<rparr>) = Raise err
         | Continue s' \<Rightarrow> (\<exists>g2'. step sc P rep (s\<lparr>rng := g2\<rparr>) = Continue (s'\<lparr>rng := g2'\<rparr>) \<and>
                              (\<forall>i<draws_left P s'. rng s' i = g2' i))"
proof (cases "step sc P rep s")
  case EmptySchedule
  then have "queue (s\<lparr>rng := g2\<rparr>) = []" by (simp add: step_Empty)
  then have "step sc P rep (s\<lparr>rng := g2\<rparr>) = EmptySchedule" by (simp only: step_Empty)
  then show ?thesis by (simp add: EmptySchedule)
next
  case (Raise err)
  then have "step sc P rep (s\<lparr>rng := g2\<rparr>) = Raise err"
    by (auto simp: step_def Let_def split: option.splits event.splits)
  then show ?thesis by (simp add: Raise)
next
  case (Continue s')
  then show ?thesis
  proof (cases rule: step_Continue_cases)
    case (ended t p e a)
    have "draws_left P s' = draws_left P s"
      using sum_list_map_remove1[OF ended(1), of "draw_weight P (procs s)"]
      by (simp add: draws_left_def ended(2))
    with ag have "\<forall>i<draws_left P s'. rng s' i = g2 i" by (simp add: ended(2))
    moreover have "step sc P rep (s\<lparr>rng := g2\<rparr>) = Continue (s'\<lparr>rng := g2\<rparr>)"
      by (simp add: step_def ended(2,3))
    ultimately show ?thesis unfolding Continue by auto
  next
    case (wake t p e ev a)
    let ?x = "(t, p, e, ev)"
    let ?s1 = "s\<lparr>now := t, queue := remove1 ?x (queue s)\<rparr>"
    from inv wake(1) is_wakeup_target[OF wake(2)] have "a \<in> dom (procs s)"
      by (fastforce simp: sim_inv_def)
    then obtain gn where p: "procs s a = Some gn" by auto
    define d where "d = consumes sc P gn"
    from wake_draws[OF inv wake(1,2) p, of t] have le: "draws_left P s' + d \<le> draws_left P s"
      by (simp add: wake(3) d_def)
    have p1: "procs ?s1 a = Some gn" using p by simp
    have "d = 1 \<Longrightarrow> rng ?s1 0 = g2 0" using le ag by simp
    from resume_rng[OF p1, of sc P g2 rep] this
    have r: "resume sc P rep a (?s1\<lparr>rng := g2\<rparr>) = s'\<lparr>rng := drop_draws d g2\<rparr>"
      "rng s' = drop_draws d (rng s)"
      by (simp_all add: wake(3) d_def)
    have sw: "s\<lparr>rng := g2, now := t, queue := remove1 ?x (queue s)\<rparr> = ?s1\<lparr>rng := g2\<rparr>"
      by simp
    have "step sc P rep (s\<lparr>rng := g2\<rparr>) =
        Continue (resume sc P rep a (s\<lparr>rng := g2, now := t, queue := remove1 ?x (queue s)\<rparr>))"
      using wake(2) by (cases ev) (simp_all add: step_def wake(4))
    then have "step sc P rep (s\<lparr>rng := g2\<rparr>) = Continue (resume sc P rep a (?s1\<lparr>rng := g2\<rparr>))"
      by (simp only: sw)
    moreover have "\<forall>i<draws_left P s'. rng s' i = drop_draws d g2 i"
      using le ag by (simp add: r(2) drop_draws_def)
    ultimately show ?thesis unfolding Continue r(1) by auto
  qed
qed

lemma run_agree:
  assumes "sim_inv sc P rep g0 s" "\<forall>i<draws_left P s. rng s i = g2 i"
  shows "map_option tables (run sc P rep (s\<lparr>rng := g2\<rparr>)) = map_option tables (run sc P rep s)"
  using assms
proof (induction "steps_left P s" arbitrary: s g2 rule: less_induct)
  case less
  note sa = step_agree[OF less.prems]
  show ?case
  proof (cases "step sc P rep s")
    case EmptySchedule
    with sa have e2: "step sc P rep (s\<lparr>rng := g2\<rparr>) = EmptySchedule" by simp
    have "run sc P rep s = Some (Inr s)" by (subst run.simps) (simp add: EmptySchedule)
    moreover have "run sc P rep (s\<lparr>rng := g2\<rparr>) = Some (Inr (s\<lparr>rng := g2\<rparr>))"
      by (subst run.simps) (simp add: e2)
    ultimately show ?thesis by (simp add: tables_def)
  next
    case (Raise err)
    with sa have e2: "step sc P rep (s\<lparr>rng := g2\<rparr>) = Raise err" by simp
    have "run sc P rep s = Some (Inl err)" by (subst run.simps) (simp add: Raise)
    moreover have "run sc P rep (s\<lparr>rng := g2\<rparr>) = Some (Inl err)"
      by (subst run.simps) (simp add: e2)
    ultimately show ?thesis by (simp add: tables_def)
  next
    case (Continue s')
    with sa obtain g2' where
      s2: "step sc P rep (s\<lparr>rng := g2\<rparr>) = Continue (s'\<lparr>rng := g2'\<rparr>)"
      and ag: "\<forall>i<draws_left P s'. rng s' i = g2' i" by auto
    from step_inv[OF less.prems(1) Continue] have i: "sim_inv sc P rep g0 s'" by simp
    from less.hyps[OF step_decreases[OF less.prems(1) Continue] i ag]
    have "map_option tables (run sc P rep (s'\<lparr>rng := g2'\<rparr>)) =
        map_option tables (run sc P rep s')" .
    moreover have "run sc P rep s = run sc P rep s'"
      by (subst run.simps) (simp add: Continue)
    moreover have "run sc P rep (s\<lparr>rng := g2\<rparr>) = run sc P rep (s'\<lparr>rng := g2'\<rparr>)"
      by (subst run.simps) (simp add: s2)
    ultimately show ?thesis by simp
  qed
qed

lemma process_rng: "process a (s\<lparr>rng := g\<rparr>) = (process a s)\<lparr>rng := g\<rparr>"
  by (simp add: process_def schedule_def)

lemma fold_process_rng: "fold process as (s\<lparr>rng := g\<rparr>) = (fold process as s)\<lparr>rng := g\<rparr>"
  by (induction as arbitrary: s) (simp_all add: process_rng)

lemma Environment_rng: "Environment g2 = (Environment g1)\<lparr>rng := g2\<rparr>"
  by (simp add: Environment_def)

lemma process_draws_left:
  assumes "sim_inv sc P rep g0 s" "a \<notin> dom (procs s)"
  shows "draws_left P (process a s) = draws_left P s + (length P + 1)"
proof -
  have "\<not> is_wakeup a y" if "y \<in> set (queue s)" for y
    using that assms is_wakeup_target[of a y] by (auto simp: sim_inv_def)
  then have "map (draw_weight P ((procs s)(a \<mapsto> Created))) (queue s) =
      map (draw_weight P (procs s)) (queue s)"
    by (intro map_cong refl draw_weight_upd_other)
  then have "sum_list (map (draw_weight P ((procs s)(a \<mapsto> Created))) (queue s)) =
      sum_list (map (draw_weight P (procs s)) (queue s))"
    by (rule arg_cong)
  then show ?thesis by (simp add: draws_left_def process_def schedule_def)
qed

lemma fold_process_draws_left:
  assumes "initial sc P rep g s" "distinct as" "set as \<inter> dom (procs s) = {}"
  shows "draws_left P (fold process as s) = draws_left P s + length as * (length P + 1)"
  using assms
proof (induction as arbitrary: s)
  case Nil
  then show ?case by simp
next
  case (Cons a as)
  from Cons.prems have a: "a \<notin> dom (procs s)" "a \<notin> set as" "distinct as"
    "set as \<inter> dom (procs s) = {}" by auto
  from process_initial[OF Cons.prems(1) a(1)]
  have i: "initial sc P rep g (process a s)"
    and d: "dom (procs (process a s)) = insert a (dom (procs s))"
    by simp_all
  from a(2,4) have "set as \<inter> dom (procs (process a s)) = {}" unfolding d by blast
  from Cons.IH[OF i a(3) this] process_draws_left[OF _ a(1), of sc P rep g] Cons.prems(1)
  show ?case by (simp add: initial_def)
qed

lemma start_draws_left:
  "draws_left P (fold process [1..n] (Environment g)) = nat n * (length P + 1)"
proof -
  have "draws_left P (Environment g) = 0" by (simp add: draws_left_def Environment_def)
  with fold_process_draws_left[OF Environment_initial[of sc P rep g], of "[1..n]"]
  show ?thesis by (simp add: Environment_def)
qed

lemma returned_run:
  "returned (run_simulation sc P n rep g) =
     map_option tables (run sc P rep (fold process [1..n] (Environment g)))"
  by (simp add: returned_def run_simulation_def tables_def split: option.splits sum.splits)

subsection \<open>Consequences for the returned tables\<close>

lemma example_run:
  "run_simulation Simpy4 example_phases 2 7 example_rng =
     Some (Inr ((example_results, example_records), \<lambda>i. 3 / 4))"
  by (simp add: run_simulation_def Environment_def process_def schedule_def example_phases_def
      example_rng_def run.simps step_def heappop_def resume_def upto.simps
      random_uniform_def random_random_def finish_def NORMAL_def URGENT_def mk_row_def Let_def
      example_records_def example_results_def)

lemma asset_chain:
  assumes "run_simulation sc P n rep g = Some (Inr ((res, recs), g'))"
  shows "\<exists>st. record_chain P rep a st (asset_records a recs)"
proof (cases "a \<in> {1..n}")
  case True
  with run_simulation_Inr[OF assms] show ?thesis by blast
next
  case False
  with run_simulation_Inr[OF assms] have "asset_records a recs = []"
    by (auto simp: asset_records_def filter_empty_conv)
  then show ?thesis by (simp add: record_chain_Nil)
qed

lemma chain_fields:
  assumes "record_chain P rep a st rs" "k < length rs"
  shows "phase_idx (rs ! k) = k" "phase (rs ! k) = name (P ! k)"
    "phase_start_time (rs ! k) = start_at st P k"
    "phase_end_time (rs ! k) = start_at st P (Suc k)"
    "phase_duration (rs ! k) = duration (P ! k)"
    "asset_init_time (rs ! k) = st" "asset_id (rs ! k) = a" "replication (rs ! k) = rep"
    "phase_success_prob (rs ! k) = success_prob (P ! k)"
proof -
  from assms have e: "rs ! k = mk_row rep a k (P ! k) (start_at st P k) (start_at st P (Suc k))
      (phase_outcome (rs ! k)) st" by (simp add: record_chain_def)
  show "phase_idx (rs ! k) = k" by (subst e) (simp add: mk_row_def)
  show "phase (rs ! k) = name (P ! k)" by (subst e) (simp add: mk_row_def)
  show "phase_start_time (rs ! k) = start_at st P k" by (subst e) (simp add: mk_row_def)
  show "phase_end_time (rs ! k) = start_at st P (Suc k)" by (subst e) (simp add: mk_row_def)
  show "phase_duration (rs ! k) = duration (P ! k)" by (subst e) (simp add: mk_row_def)
  show "asset_init_time (rs ! k) = st" by (subst e) (simp add: mk_row_def)
  show "asset_id (rs ! k) = a" by (subst e) (simp add: mk_row_def)
  show "replication (rs ! k) = rep" by (subst e) (simp add: mk_row_def)
  show "phase_success_prob (rs ! k) = success_prob (P ! k)" by (subst e) (simp add: mk_row_def)
qed

lemma chain_length: "record_chain P rep a st rs \<Longrightarrow> length rs \<le> length P"
  by (simp add: record_chain_def)

lemma chain_success: "record_chain P rep a st rs \<Longrightarrow> Suc k < length rs \<Longrightarrow>
    phase_outcome (rs ! k) = SUCCESS"
  by (simp add: record_chain_def)

lemma phase_results_of_keys: "fst ` set (phase_results_of rs) = phase ` set rs"
proof (induction rs rule: rev_induct)
  case Nil
  show ?case by (simp add: phase_results_of_def)
next
  case (snoc r rs)
  have "phase_results_of (rs @ [r]) =
      AList.update (phase r) \<lparr>start_time = phase_start_time r, end_time = phase_end_time r,
        outcome = phase_outcome r\<rparr> (phase_results_of rs)"
    by (simp add: phase_results_of_def)
  with snoc show ?case by (simp add: dom_update)
qed

lemma scenario3_run:
  assumes "arrival sc (scenario3 n1 n2) 1 g = Inr (3, gA)" "g 1 < 1" "g 2 < 1"
  shows "run_simulation sc (scenario3 n1 n2) 1 rep g =
     Some (Inr (([(1, AList.update n2 \<lparr>start_time = 13, end_time = 18, outcome = SUCCESS\<rparr>
                       [(n1, \<lparr>start_time = 3, end_time = 13, outcome = SUCCESS\<rparr>)])],
                 [mk_row rep 1 0 \<lparr>name = n1, duration = 10, success_prob = 1\<rparr> 3 13 SUCCESS 3,
                  mk_row rep 1 1 \<lparr>name = n2, duration = 5, success_prob = 1\<rparr> 13 18 SUCCESS 3]),
                drop_draws 3 g))"
proof (cases sc)
  case Simpy4
  with assms(1) show ?thesis by (simp add: scenario3_def)
next
  case Simpy6
  with assms(1) have g0: "52 * g 0 = 3"
    by (simp add: ASSETS_PER_YEAR_def random_uniform_def random_random_def)
  have d: "drop_draws 3 g = (\<lambda>i. g (Suc (Suc (Suc i))))"
    by (simp add: drop_draws_def eval_nat_numeral)
  have g1: "g (Suc 0) < 1" using assms(2) by simp
  have g2: "g (Suc (Suc 0)) < 1" using assms(3) by (simp add: numeral_2_eq_2)
  show ?thesis unfolding d
    using g1 g2 g0 Simpy6
    by (simp add: run_simulation_def Environment_def process_def schedule_def scenario3_def
      run.simps step_def heappop_def resume_def
      random_uniform_def random_random_def finish_def NORMAL_def URGENT_def Let_def
      ASSETS_PER_YEAR_def)
qed

subsection \<open>Exceptions\<close>

lemma arrival_Inl: "arrival sc P a g = Inl e \<Longrightarrow> e = IndexError \<and> \<not> can_arrive sc P"
  by (cases sc) (auto simp: can_arrive_def Let_def random_uniform_def random_random_eq
      split: if_splits)

lemma errs_ok_snoc:
  "errs_ok sc P (q @ [(t, p, i, ev)]) =
     (errs_ok sc P q \<and>
      (\<forall>b e. ev = Process b (Some e) \<longrightarrow> (e = IndexError) = (\<not> can_arrive sc P)))"
  by (auto simp: errs_ok_def)

lemma errs_ok_remove1: "errs_ok sc P q \<Longrightarrow> errs_ok sc P (remove1 x q)"
  by (auto simp: errs_ok_def dest: notin_set_remove1)

lemma resume_errs:
  assumes "procs s a = Some gn" "gn \<noteq> Created \<Longrightarrow> gn \<noteq> Finished \<Longrightarrow> can_arrive sc P"
    "errs_ok sc P (queue s)"
  shows "errs_ok sc P (queue (resume sc P rep a s))"
proof (cases gn)
  case Created
  show ?thesis
  proof (cases "arrival sc P a (rng s)")
    case (Inl e)
    with arrival_Inl[OF Inl] assms Created show ?thesis
      by (simp add: resume_def schedule_def errs_ok_snoc)
  next
    case (Inr r)
    with arrival_Inr[OF Inr] assms Created show ?thesis
      by (cases r) (simp add: resume_def schedule_def errs_ok_snoc)
  qed
next
  case (AtArrival st)
  with assms show ?thesis
    by (cases rule: loop_head_cases[of a st "now s" "[]" True 0 P s])
       (simp_all add: resume_def schedule_def finish_def errs_ok_snoc)
next
  case (AtPhase st cur pres idx ph rest)
  obtain u g' where r: "random_random (rng s) = (u, g')" by (cases "random_random (rng s)")
  define oc where "oc = (if u < success_prob ph then SUCCESS else FAILURE)"
  define s1 where "s1 = s\<lparr>rng := g', records := records s @ [mk_row rep a idx ph cur (now s) oc st]\<rparr>"
  define pres' where
    "pres' = AList.update (name ph) \<lparr>start_time = cur, end_time = now s, outcome = oc\<rparr> pres"
  have eq: "send sc P rep a (AtPhase st cur pres idx ph rest) s =
      loop_head a st (now s) pres' (u < success_prob ph) (Suc idx) rest s1"
    by (simp add: r Let_def oc_def s1_def pres'_def)
  from assms AtPhase eq show ?thesis
    by (cases rule: loop_head_cases[of a st "now s" pres' "u < success_prob ph" "Suc idx" rest s1])
       (simp_all add: resume_def schedule_def finish_def s1_def errs_ok_snoc)
next
  case Finished
  with assms show ?thesis by (simp add: resume_def schedule_def errs_ok_snoc)
qed

lemma step_errs:
  assumes inv: "sim_inv sc P rep g0 s" and e: "errs_ok sc P (queue s)"
    and st: "step sc P rep s = Continue s'"
  shows "errs_ok sc P (queue s')"
  using st
proof (cases rule: step_Continue_cases)
  case (ended t p e a)
  with e show ?thesis by (simp add: errs_ok_remove1)
next
  case (wake t p i ev a)
  let ?x = "(t, p, i, ev)"
  let ?s1 = "s\<lparr>now := t, queue := remove1 ?x (queue s)\<rparr>"
  from inv wake(1) is_wakeup_target[OF wake(2)] have "a \<in> dom (procs s)"
    by (fastforce simp: sim_inv_def)
  then obtain gn where p: "procs s a = Some gn" by auto
  with inv have ok: "proc_ok sc P rep g0 s a gn" by (simp add: sim_inv_def)
  have ca: "gn \<noteq> Created \<Longrightarrow> gn \<noteq> Finished \<Longrightarrow> can_arrive sc P"
    using ok by (cases gn) simp_all
  have p1: "procs ?s1 a = Some gn" using p by simp
  have "errs_ok sc P (queue ?s1)" using e by (simp add: errs_ok_remove1)
  from resume_errs[OF p1 ca this] show ?thesis by (simp add: wake(3))
qed

lemma run_errs:
  assumes "sim_inv sc P rep g0 s" "errs_ok sc P (queue s)" "run sc P rep s = Some (Inl err)"
  shows "(err = IndexError) = (\<not> can_arrive sc P)"
  using assms
proof (induction "steps_left P s" arbitrary: s rule: less_induct)
  case less
  show ?case
  proof (cases "step sc P rep s")
    case EmptySchedule
    then have "run sc P rep s = Some (Inr s)" by (subst run.simps) simp
    with less.prems(3) show ?thesis by simp
  next
    case (Raise e)
    then have "run sc P rep s = Some (Inl e)" by (subst run.simps) simp
    with less.prems(3) have "e = err" by simp
    with step_Raise[OF Raise] less.prems(2) show ?thesis by (fastforce simp: errs_ok_def)
  next
    case (Continue s')
    then have "run sc P rep s = run sc P rep s'" by (subst run.simps) simp
    with less.prems(3) have r: "run sc P rep s' = Some (Inl err)" by simp
    from step_inv[OF less.prems(1) Continue] have i: "sim_inv sc P rep g0 s'" by simp
    from less.hyps[OF step_decreases[OF less.prems(1) Continue] i
        step_errs[OF less.prems(1,2) Continue] r]
    show ?thesis .
  qed
qed

lemma fold_process_errs:
  "errs_ok sc P (queue s) \<Longrightarrow> errs_ok sc P (queue (fold process as s))"
  by (induction as arbitrary: s) (simp_all add: process_def schedule_def errs_ok_snoc)

lemma run_simulation_Inl:
  assumes "run_simulation sc P n rep g = Some (Inl err)"
  shows "(err = IndexError) = (\<not> can_arrive sc P)"
proof -
  let ?s0 = "fold process [1..n] (Environment g)"
  from start_initial[of sc P rep g n] have inv: "sim_inv sc P rep g ?s0"
    by (simp add: initial_def)
  have "errs_ok sc P (queue (Environment g))" by (simp add: errs_ok_def Environment_def)
  then have e: "errs_ok sc P (queue ?s0)" by (rule fold_process_errs)
  from assms have "run sc P rep ?s0 = Some (Inl err)"
    by (simp add: run_simulation_def split: option.splits sum.splits)
  from run_errs[OF inv e this] show ?thesis .
qed

lemma no_assets:
  assumes "n \<le> 0"
  shows "run_simulation sc P n rep g = Some (Inr (([], []), g))"
proof -
  from assms have "[1..n] = []" by simp
  moreover have "run sc P rep (Environment g) = Some (Inr (Environment g))"
    by (subst run.simps) (simp add: step_def heappop_def Environment_def)
  ultimately show ?thesis by (simp add: run_simulation_def) (simp add: Environment_def)
qed

lemma cannot_arrive:
  assumes "0 < n" "\<not> can_arrive sc P"
  shows "run_simulation sc P n rep g = Some (Inl IndexError)"
proof -
  from run_simulation_total[of sc P n rep g] obtain r where
    r: "run_simulation sc P n rep g = Some r" by blast
  show ?thesis
  proof (cases r)
    case (Inl err)
    with r run_simulation_Inl[of sc P n rep g err] assms(2) show ?thesis by simp
  next
    case (Inr t)
    obtain res recs g' where "t = ((res, recs), g')" by (cases t) auto
    with Inr r run_simulation_Inr[of sc P n rep g res recs g'] assms show ?thesis by simp
  qed
qed

lemma empty_table_records:
  assumes "run_simulation sc [] n rep g = Some (Inr ((res, recs), g'))"
  shows "recs = [] \<and> (\<forall>a\<in>{1..n}. map_of res a = Some [])"
proof -
  have e: "asset_records a recs = []" for a
    using asset_chain[OF assms, of a] by (auto simp: record_chain_def)
  have "recs = []"
  proof (rule ccontr)
    assume "recs \<noteq> []"
    then obtain r where "r \<in> set recs" by (cases recs) auto
    then have "r \<in> set (asset_records (asset_id r) recs)" by (simp add: asset_records_def)
    with e show False by simp
  qed
  with run_simulation_Inr[OF assms] show ?thesis
    by (simp add: asset_records_def phase_results_of_def)
qed

lemma no_failed_snoc:
  "no_failed (q @ [(t, p, i, ev)]) = (no_failed q \<and> (\<forall>b e. ev \<noteq> Process b (Some e)))"
  by (auto simp: no_failed_def)

lemma no_failed_remove1: "no_failed q \<Longrightarrow> no_failed (remove1 x q)"
  by (auto simp: no_failed_def dest: notin_set_remove1)

lemma arrival_nonneg:
  assumes "can_arrive sc P" "list_all (\<lambda>ph. 0 \<le> duration ph) P" "0 \<le> g 0" "1 \<le> a"
  shows "\<exists>st g'. arrival sc P a g = Inr (st, g') \<and> 0 \<le> st"
proof (cases sc)
  case Simpy4
  with assms(1) have l: "2 < length P" by (simp add: can_arrive_def)
  then have "P ! 2 \<in> set P" by simp
  with assms(2) have "0 \<le> duration (P ! 2)" by (simp add: list_all_iff)
  with assms(3) l Simpy4 show ?thesis
    by (simp add: random_uniform_def random_random_eq)
next
  case Simpy6
  from assms(4) have "0 \<le> (a - 1) div ASSETS_PER_YEAR"
    by (simp add: ASSETS_PER_YEAR_def pos_imp_zdiv_nonneg_iff)
  then have "0 \<le> real_of_int ((a - 1) div ASSETS_PER_YEAR * 52)" by simp
  with assms(3) Simpy6 show ?thesis
    by (simp add: random_uniform_def random_random_eq del: of_int_mult)
qed

lemma loop_head_no_fail:
  assumes "list_all (\<lambda>ph. 0 \<le> duration ph) ps"
  shows "fst (loop_head a st cur pres success idx ps s) \<noteq> Raised e"
  using assms
  by (cases rule: loop_head_cases[of a st cur pres success idx ps s])
     (auto simp: finish_def)

lemma resume_no_fail:
  assumes p: "procs s a = Some gn" and r: "runnable sc P (rng s)" and a: "1 \<le> a"
    and rest: "\<And>st cur pres idx ph rest. gn = AtPhase st cur pres idx ph rest \<Longrightarrow>
                 set rest \<subseteq> set P"
    and q: "no_failed (queue s)"
  shows "no_failed (queue (resume sc P rep a s))"
proof -
  from r have ca: "can_arrive sc P" and d: "list_all (\<lambda>ph. 0 \<le> duration ph) P"
    and g: "0 \<le> rng s 0" by (simp_all add: runnable_def)
  obtain res s' where s: "send sc P rep a gn s = (res, s')" by (cases "send sc P rep a gn s")
  from send_frame[of sc P rep a gn s] s have f: "queue s' = queue s" by auto
  have "res \<noteq> Raised e" for e
  proof (cases gn)
    case Created
    from arrival_nonneg[of sc P "rng s" a] ca d g a obtain st g' where
      "arrival sc P a (rng s) = Inr (st, g')" "0 \<le> st" by blast
    with s Created show ?thesis by auto
  next
    case (AtArrival st)
    with s have "loop_head a st (now s) [] True 0 P s = (res, s')" by simp
    with loop_head_no_fail[OF d, of a st "now s" "[]" True 0 s e] show ?thesis by simp
  next
    case (AtPhase st cur pres idx ph rest)
    from rest[OF AtPhase] d have d': "list_all (\<lambda>ph. 0 \<le> duration ph) rest"
      by (auto simp: list_all_iff)
    obtain u g' where rr: "random_random (rng s) = (u, g')" by (cases "random_random (rng s)")
    define oc where "oc = (if u < success_prob ph then SUCCESS else FAILURE)"
    define s1 where
      "s1 = s\<lparr>rng := g', records := records s @ [mk_row rep a idx ph cur (now s) oc st]\<rparr>"
    define pres' where
      "pres' = AList.update (name ph) \<lparr>start_time = cur, end_time = now s, outcome = oc\<rparr> pres"
    have eq: "send sc P rep a (AtPhase st cur pres idx ph rest) s =
        loop_head a st (now s) pres' (u < success_prob ph) (Suc idx) rest s1"
      by (simp add: rr Let_def oc_def s1_def pres'_def)
    from s AtPhase eq
    have "loop_head a st (now s) pres' (u < success_prob ph) (Suc idx) rest s1 = (res, s')"
      by simp
    with loop_head_no_fail[OF d', of a st "now s" pres' "u < success_prob ph" "Suc idx" s1 e]
    show ?thesis by simp
  next
    case Finished
    with s show ?thesis by auto
  qed
  with p s f q show ?thesis
    by (cases res) (simp_all add: resume_def schedule_def no_failed_snoc)
qed

lemma step_no_fail:
  assumes inv: "sim_inv sc P rep g0 s" and r: "runnable sc P g0"
    and ids: "\<forall>a\<in>dom (procs s). 1 \<le> a" and q: "no_failed (queue s)"
  shows "(\<forall>e. step sc P rep s \<noteq> Raise e) \<and>
         (\<forall>s'. step sc P rep s = Continue s' \<longrightarrow> no_failed (queue s'))"
proof (intro conjI allI impI)
  fix e show "step sc P rep s \<noteq> Raise e"
    using step_Raise[of sc P rep s e] q by (fastforce simp: no_failed_def)
next
  fix s' assume "step sc P rep s = Continue s'"
  then show "no_failed (queue s')"
  proof (cases rule: step_Continue_cases)
    case (ended t p e a)
    with q show ?thesis by (simp add: no_failed_remove1)
  next
    case (wake t p i ev a)
    let ?x = "(t, p, i, ev)"
    let ?s1 = "s\<lparr>now := t, queue := remove1 ?x (queue s)\<rparr>"
    from inv wake(1) is_wakeup_target[OF wake(2)] have ad: "a \<in> dom (procs s)"
      by (fastforce simp: sim_inv_def)
    then obtain gn where p: "procs s a = Some gn" by auto
    with inv have ok: "proc_ok sc P rep g0 s a gn" by (simp add: sim_inv_def)
    from inv obtain k where "rng s = drop_draws k g0" unfolding sim_inv_def by blast
    with r have r1: "runnable sc P (rng ?s1)" by (simp add: runnable_def drop_draws_def)
    have p1: "procs ?s1 a = Some gn" using p by simp
    have rest: "set rest \<subseteq> set P" if "gn = AtPhase st cur pres idx ph rest"
      for st cur pres idx ph rest
      using ok that by (simp add: set_drop_subset)
    have "no_failed (queue ?s1)" using q by (simp add: no_failed_remove1)
    from resume_no_fail[OF p1 r1 _ rest this] ids ad show ?thesis by (simp add: wake(3))
  qed
qed

lemma run_no_fail:
  assumes "sim_inv sc P rep g0 s" "runnable sc P g0" "\<forall>a\<in>dom (procs s). 1 \<le> a"
    "no_failed (queue s)"
  shows "run sc P rep s \<noteq> Some (Inl e)"
  using assms
proof (induction "steps_left P s" arbitrary: s rule: less_induct)
  case less
  note sn = step_no_fail[OF less.prems]
  show ?case
  proof (cases "step sc P rep s")
    case EmptySchedule
    then have "run sc P rep s = Some (Inr s)" by (subst run.simps) simp
    then show ?thesis by simp
  next
    case (Raise e')
    with sn show ?thesis by simp
  next
    case (Continue s')
    then have eq: "run sc P rep s = run sc P rep s'" by (subst run.simps) simp
    from step_inv[OF less.prems(1) Continue] have i: "sim_inv sc P rep g0 s'"
      and d: "dom (procs s') = dom (procs s)" by simp_all
    from sn Continue have q: "no_failed (queue s')" by simp
    from less.prems(3) d have ids: "\<forall>a\<in>dom (procs s'). 1 \<le> a" by simp
    from less.hyps[OF step_decreases[OF less.prems(1) Continue] i less.prems(2) ids q] eq
    show ?thesis by simp
  qed
qed

lemma fold_process_no_failed:
  "no_failed (queue s) \<Longrightarrow> no_failed (queue (fold process as s))"
  by (induction as arbitrary: s) (simp_all add: process_def schedule_def no_failed_snoc)

lemma run_simulation_returns:
  assumes "runnable sc P g"
  shows "\<exists>res recs g'. run_simulation sc P n rep g = Some (Inr ((res, recs), g'))"
proof -
  let ?s0 = "fold process [1..n] (Environment g)"
  from start_initial[of sc P rep g n] have inv: "sim_inv sc P rep g ?s0"
    and d: "dom (procs ?s0) = {1..n}" by (simp_all add: initial_def)
  have "no_failed (queue (Environment g))" by (simp add: no_failed_def Environment_def)
  then have q: "no_failed (queue ?s0)" by (rule fold_process_no_failed)
  from d have ids: "\<forall>a\<in>dom (procs ?s0). 1 \<le> a" by simp
  from run_total_inv[OF inv] obtain r where r: "run sc P rep ?s0 = Some r" by blast
  with run_no_fail[OF inv assms ids q] obtain s' where "r = Inr s'" by (cases r) auto
  with r show ?thesis by (simp add: run_simulation_def)
qed

subsection \<open>Rounding to binary64\<close>

lemma round_even_of_int: "round_even (of_int n) = n"
  by (simp add: round_even_def)

lemma round_even_lower: "of_int m \<le> r \<Longrightarrow> m \<le> round_even r"
proof -
  assume "of_int m \<le> r"
  then have "m \<le> \<lfloor>r\<rfloor>" by (simp add: le_floor_iff)
  then show ?thesis by (auto simp: round_even_def Let_def)
qed

lemma round_even_upper:
  assumes "r \<le> of_int m"
  shows "round_even r \<le> m"
proof (cases "r = of_int m")
  case True
  then show ?thesis by (simp add: round_even_of_int)
next
  case False
  with assms have "r < of_int m" by simp
  then have "\<lfloor>r\<rfloor> < m" by (simp add: floor_less_iff)
  then show ?thesis by (auto simp: round_even_def Let_def)
qed

lemma binade_bounds:
  assumes "x \<noteq> 0"
  shows "2 powr of_int (binade x) \<le> \<bar>x\<bar>" "\<bar>x\<bar> < 2 powr of_int (binade x + 1)"
proof -
  from assms have p: "0 < \<bar>x\<bar>" by simp
  have "of_int (binade x) \<le> log 2 \<bar>x\<bar>" by (simp add: binade_def)
  then show "2 powr of_int (binade x) \<le> \<bar>x\<bar>" using p by (simp add: le_log_iff)
  have "log 2 \<bar>x\<bar> < of_int (binade x + 1)" by (simp add: binade_def)
  then show "\<bar>x\<bar> < 2 powr of_int (binade x + 1)" using p by (simp add: log_less_iff)
qed

lemma binade_le:
  assumes "0 < x" "x < 2 powr of_int k"
  shows "binade x < k"
proof -
  from assms have "log 2 x < of_int k" by (simp add: log_less_iff)
  then have "\<lfloor>log 2 x\<rfloor> < k" by (simp add: floor_less_iff)
  with assms(1) show ?thesis by (simp add: binade_def)
qed

lemma binade_eq:
  assumes "2 powr of_int k \<le> x" "x < 2 powr of_int (k + 1)"
  shows "binade x = k"
proof -
  have "0 < (2::real) powr of_int k" by simp
  with assms(1) have p: "0 < x" by linarith
  from assms p have "of_int k \<le> log 2 x" "log 2 x < of_int k + 1"
    by (simp_all add: le_log_iff log_less_iff)
  then have "\<lfloor>log 2 x\<rfloor> = k" by (simp add: floor_eq_iff)
  with p show ?thesis by (simp add: binade_def)
qed

lemma fl_scaled:
  assumes "x \<noteq> 0" "binade x \<le> 52"
  shows "fl x = of_int (round_even (x * 2 ^ nat (52 - binade x))) / 2 ^ nat (52 - binade x)"
proof -
  let ?n = "nat (52 - binade x)"
  from assms(2) have a: "(2::real) powr of_int (52 - binade x) = 2 ^ ?n"
    using powr_real_of_int[of 2 "52 - binade x"] by (simp del: of_int_diff)
  have "binade x - 52 = - (52 - binade x)" by simp
  then have "(2::real) powr of_int (binade x - 52) = inverse (2 powr of_int (52 - binade x))"
    by (simp only: of_int_minus powr_minus)
  with a have b: "(2::real) powr of_int (binade x - 52) = 1 / 2 ^ ?n" by (simp add: field_simps)
  show ?thesis using assms(1) unfolding fl_def a b by simp
qed

lemma fl_upper:
  assumes "0 < x" "x \<le> of_int m / 2 ^ k" "binade x + int k \<le> 52"
  shows "fl x \<le> of_int m / 2 ^ k"
proof -
  let ?n = "nat (52 - binade x)"
  from assms(3) have "k \<le> ?n" and e: "binade x \<le> 52" by simp_all
  then obtain j where n: "?n = k + j" by (auto simp: le_iff_add)
  have sc: "(of_int m / 2 ^ k) * (2::real) ^ ?n = of_int (m * 2 ^ j)"
    unfolding n by (simp add: power_add)
  have "x * 2 ^ ?n \<le> (of_int m / 2 ^ k) * 2 ^ ?n"
    using assms(2) by (intro mult_right_mono) simp_all
  then have "x * 2 ^ ?n \<le> of_int (m * 2 ^ j)" unfolding sc .
  then have "round_even (x * 2 ^ ?n) \<le> m * 2 ^ j" by (rule round_even_upper)
  then have "(of_int (round_even (x * 2 ^ ?n)) :: real) \<le> of_int (m * 2 ^ j)"
    by (simp only: of_int_le_iff)
  then have "of_int (round_even (x * 2 ^ ?n)) / 2 ^ ?n \<le> (of_int (m * 2 ^ j) :: real) / 2 ^ ?n"
    by (intro divide_right_mono) simp_all
  also have "(of_int (m * 2 ^ j) :: real) / 2 ^ ?n = of_int m / 2 ^ k"
    unfolding n by (simp add: power_add)
  finally show ?thesis using assms(1) e by (simp add: fl_scaled)
qed

lemma fl_lower:
  assumes "0 < x" "of_int m / 2 ^ k \<le> x" "binade x + int k \<le> 52"
  shows "of_int m / 2 ^ k \<le> fl x"
proof -
  let ?n = "nat (52 - binade x)"
  from assms(3) have "k \<le> ?n" and e: "binade x \<le> 52" by simp_all
  then obtain j where n: "?n = k + j" by (auto simp: le_iff_add)
  have sc: "(of_int m / 2 ^ k) * (2::real) ^ ?n = of_int (m * 2 ^ j)"
    unfolding n by (simp add: power_add)
  have "(of_int m / 2 ^ k) * 2 ^ ?n \<le> x * 2 ^ ?n"
    using assms(2) by (intro mult_right_mono) simp_all
  then have "of_int (m * 2 ^ j) \<le> x * 2 ^ ?n" unfolding sc .
  then have "m * 2 ^ j \<le> round_even (x * 2 ^ ?n)" by (rule round_even_lower)
  then have "(of_int (m * 2 ^ j) :: real) \<le> of_int (round_even (x * 2 ^ ?n))"
    by (simp only: of_int_le_iff)
  then have "(of_int (m * 2 ^ j) :: real) / 2 ^ ?n \<le> of_int (round_even (x * 2 ^ ?n)) / 2 ^ ?n"
    by (intro divide_right_mono) simp_all
  moreover have "(of_int (m * 2 ^ j) :: real) / 2 ^ ?n = of_int m / 2 ^ k"
    unfolding n by (simp add: power_add)
  ultimately show ?thesis using assms(1) e by (simp add: fl_scaled)
qed

lemma round_even_below_half:
  assumes "r < of_int m + 1 / 2"
  shows "round_even r \<le> m"
proof -
  from assms have "r < of_int (m + 1)" by simp
  then have "\<lfloor>r\<rfloor> < m + 1" by (simp only: floor_less_iff)
  then have f: "\<lfloor>r\<rfloor> \<le> m" by simp
  show ?thesis
  proof (cases "\<lfloor>r\<rfloor> = m")
    case True
    with assms show ?thesis by (simp add: round_even_def Let_def)
  next
    case False
    with f have "\<lfloor>r\<rfloor> + 1 \<le> m" by simp
    then show ?thesis by (auto simp: round_even_def Let_def)
  qed
qed

lemma round_even_down:
  assumes "of_int f \<le> r" "r < of_int f + 1 / 2"
  shows "round_even r = f"
  using round_even_lower[OF assms(1)] round_even_below_half[OF assms(2)] by simp

lemma round_even_tie_odd:
  assumes "r = of_int f + 1 / 2" "odd f"
  shows "round_even r = f + 1"
proof -
  from assms(1) have "\<lfloor>r\<rfloor> = f" by (simp add: floor_eq_iff)
  with assms show ?thesis by (simp add: round_even_def Let_def)
qed

lemma binade_less:
  assumes "0 < x" "x < 2 ^ n"
  shows "binade x < int n"
proof -
  have "(2::real) powr of_int (int n) = 2 ^ n" by (simp add: powr_realpow)
  with assms(2) have "x < 2 powr of_int (int n)" by simp
  with assms(1) show ?thesis by (rule binade_le)
qed

lemma fl_0: "fl 0 = 0"
  by (simp add: fl_def)

lemma fl_between:
  assumes "of_int lo \<le> x" "x \<le> of_int hi" "0 \<le> lo" "hi < 2 ^ 53"
  shows "of_int lo \<le> fl x \<and> fl x \<le> of_int hi"
proof (cases "x = 0")
  case True
  with assms show ?thesis by (simp add: fl_0)
next
  case False
  from assms(3) have "(0::real) \<le> of_int lo" by simp
  with assms(1) False have p: "0 < x" by linarith
  from assms(4) have "(of_int hi :: real) < 2 ^ 53" by simp
  with assms(2) have "x < 2 ^ 53" by linarith
  with p have "binade x < 53" using binade_less[of x 53] by simp
  then have b: "binade x + int 0 \<le> 52" by simp
  from fl_lower[OF p _ b, of lo] fl_upper[OF p _ b, of hi] assms(1,2) show ?thesis by simp
qed

lemma fl_int:
  assumes "0 \<le> n" "n < 2 ^ 53"
  shows "fl (of_int n) = of_int n"
  using fl_between[of n "of_int n" n] assms by simp

lemma fl_below_52:
  assumes "0 \<le> x" "x \<le> 52 - 52 / 2 ^ 53"
  shows "0 \<le> fl x \<and> fl x \<le> of_int (52 * 2 ^ 47 - 1) / 2 ^ 47"
proof (cases "x = 0")
  case True
  then show ?thesis by (simp add: fl_0)
next
  case False
  with assms(1) have p: "0 < x" by simp
  from assms(2) have "x < 2 ^ 6" by simp
  with p have b6: "binade x < 6" using binade_less[of x 6] by simp
  then have b: "binade x + int 0 \<le> 52" by simp
  from fl_lower[OF p _ b, of 0] p have lo: "0 \<le> fl x" by simp
  have "fl x \<le> of_int (52 * 2 ^ 47 - 1) / 2 ^ 47"
  proof (cases "x < 32")
    case True
    with p have "binade x < 5" using binade_less[of x 5] by simp
    then have "binade x + int 0 \<le> 52" by simp
    from fl_upper[OF p _ this, of 32] True have "fl x \<le> 32" by simp
    then show ?thesis by simp
  next
    case False
    then have "2 powr of_int 5 \<le> x" by simp
    moreover from assms(2) have "x < 2 powr of_int (5 + 1)" by simp
    ultimately have e: "binade x = 5" by (rule binade_eq)
    have "x * 2 ^ 47 < of_int (52 * 2 ^ 47 - 1) + 1 / 2" using assms(2) by simp
    then have "round_even (x * 2 ^ 47) \<le> 52 * 2 ^ 47 - 1" by (rule round_even_below_half)
    then have "(of_int (round_even (x * 2 ^ 47)) :: real) \<le> of_int (52 * 2 ^ 47 - 1)"
      by (simp only: of_int_le_iff)
    then have "of_int (round_even (x * 2 ^ 47)) / 2 ^ 47 \<le> (of_int (52 * 2 ^ 47 - 1) :: real) / 2 ^ 47"
      by (intro divide_right_mono) simp_all
    moreover have "fl x = of_int (round_even (x * 2 ^ 47)) / 2 ^ 47"
      using fl_scaled[of x] p e by simp
    ultimately show ?thesis by simp
  qed
  with lo show ?thesis by simp
qed

lemma fl_eval:
  assumes "2 powr of_int e \<le> x" "x < 2 powr of_int (e + 1)" "e \<le> 52"
    "round_even (x * 2 ^ nat (52 - e)) = z"
  shows "fl x = of_int z / 2 ^ nat (52 - e)"
proof -
  from assms(1,2) have e: "binade x = e" by (rule binade_eq)
  have "0 < (2::real) powr of_int e" by simp
  with assms(1) have "x \<noteq> 0" by linarith
  from fl_scaled[OF this] e assms(3,4) show ?thesis by simp
qed

lemma uniform_float_0_52: "uniform_float 0 52 r = fl (fl (52 * r))"
  using fl_int[of 52] by (simp add: uniform_float_def fadd_def fmul_def fl_0)

lemma uniform_float_bounds:
  assumes "0 \<le> r" "r \<le> 1 - 1 / 2 ^ 53"
  shows "0 \<le> uniform_float 0 52 r \<and> uniform_float 0 52 r < 52"
proof -
  let ?v = "fl (52 * r)"
  from assms have "0 \<le> 52 * r" "52 * r \<le> 52 - 52 / 2 ^ 53" by simp_all
  from fl_below_52[OF this] have v: "0 \<le> ?v" "?v \<le> of_int (52 * 2 ^ 47 - 1) / 2 ^ 47"
    by simp_all
  have "0 \<le> fl ?v \<and> fl ?v \<le> of_int (52 * 2 ^ 47 - 1) / 2 ^ 47"
  proof (cases "?v = 0")
    case True
    then show ?thesis by (simp add: fl_0)
  next
    case False
    with v(1) have p: "0 < ?v" by simp
    from v(2) have "?v < 2 ^ 6" by simp
    with p have "binade ?v < 6" using binade_less[of ?v 6] by simp
    then have b0: "binade ?v + int 0 \<le> 52" and b47: "binade ?v + int 47 \<le> 52" by simp_all
    from fl_lower[OF p _ b0, of 0] p have "0 \<le> fl ?v" by simp
    moreover from fl_upper[OF p v(2) b47] have "fl ?v \<le> of_int (52 * 2 ^ 47 - 1) / 2 ^ 47" .
    ultimately show ?thesis by simp
  qed
  then show ?thesis unfolding uniform_float_0_52 by simp
qed

lemma start_time_float_window:
  assumes "1 \<le> a" "((a - 1) div ASSETS_PER_YEAR + 1) * 52 < 2 ^ 53"
    "0 \<le> r" "r \<le> 1 - 1 / 2 ^ 53"
  shows "start_time_float a r =
           fl (of_int ((a - 1) div ASSETS_PER_YEAR * 52) + uniform_float 0 52 r)"
    "of_int ((a - 1) div ASSETS_PER_YEAR * 52) \<le> start_time_float a r"
    "start_time_float a r \<le> of_int (((a - 1) div ASSETS_PER_YEAR + 1) * 52)"
proof -
  let ?Y = "(a - 1) div ASSETS_PER_YEAR * 52"
  let ?u = "uniform_float 0 52 r"
  from assms(1) have y: "0 \<le> ?Y" by (simp add: ASSETS_PER_YEAR_def pos_imp_zdiv_nonneg_iff)
  from assms(2) have h: "?Y + 52 < 2 ^ 53" by (simp add: algebra_simps)
  then have "?Y < 2 ^ 53" by simp
  with y have fy: "fl (of_int ?Y) = of_int ?Y" by (rule fl_int)
  show eq: "start_time_float a r = fl (of_int ?Y + ?u)"
    by (simp add: start_time_float_def Let_def fadd_def fy del: of_int_mult)
  from uniform_float_bounds[OF assms(3,4)] have u: "0 \<le> ?u" "?u < 52" by simp_all
  then have "of_int ?Y \<le> of_int ?Y + ?u" "of_int ?Y + ?u \<le> of_int (?Y + 52)" by simp_all
  from fl_between[OF this y h]
  show "of_int ?Y \<le> start_time_float a r"
    "start_time_float a r \<le> of_int (((a - 1) div ASSETS_PER_YEAR + 1) * 52)"
    unfolding eq by (simp_all add: algebra_simps)
qed

lemma start_time_float_51:
  "start_time_float 51 (1 - 1 / 2 ^ 53) = 104"
proof -
  let ?r = "1 - 1 / 2 ^ 53 :: real"
  have v: "fl (52 * ?r) = of_int (52 * 2 ^ 47 - 1) / 2 ^ 47"
  proof -
    have "round_even (52 * ?r * 2 ^ nat (52 - 5)) = 52 * 2 ^ 47 - 1"
      by (rule round_even_down) simp_all
    from fl_eval[OF _ _ _ this] show ?thesis by simp
  qed
  have u: "fl (of_int (52 * 2 ^ 47 - 1) / 2 ^ 47) = of_int (52 * 2 ^ 47 - 1) / 2 ^ 47"
  proof -
    have "(of_int (52 * 2 ^ 47 - 1) / 2 ^ 47 :: real) * 2 ^ nat (52 - 5) =
        of_int (52 * 2 ^ 47 - 1)" by simp
    then have "round_even ((of_int (52 * 2 ^ 47 - 1) / 2 ^ 47 :: real) * 2 ^ nat (52 - 5)) =
        52 * 2 ^ 47 - 1" by (simp only: round_even_of_int)
    from fl_eval[OF _ _ _ this] show ?thesis by simp
  qed
  have s: "fl (of_int 52 + of_int (52 * 2 ^ 47 - 1) / 2 ^ 47) = 104"
  proof -
    have "round_even ((of_int 52 + of_int (52 * 2 ^ 47 - 1) / 2 ^ 47 :: real) * 2 ^ nat (52 - 6)) =
        (104 * 2 ^ 46 - 1) + 1"
      by (rule round_even_tie_odd) simp_all
    from fl_eval[OF _ _ _ this] show ?thesis by simp
  qed
  have f52: "fl (of_int 52) = of_int 52" by (rule fl_int) simp_all
  have y: "(51 - 1) div ASSETS_PER_YEAR * 52 = 52" by (simp add: ASSETS_PER_YEAR_def)
  show ?thesis
    unfolding start_time_float_def Let_def fadd_def uniform_float_0_52 y f52 v u by (rule s)
qed

subsection \<open>The claims\<close>

text \<open>
  C1 (amended). The scripts never seed the generator of module \<^verbatim>\<open>random\<close>, and the
  replication id is only copied into the rows. What \<^verbatim>\<open>run_simulation\<close> returns (the error,
  or the results and the sequence of records, in order and with every field) is fixed by
  the phase table, the asset count, the replication id and the state of the generator on
  entry: two runs whose generators agree on the first num_assets * (phases + 1) draws
  return the same. A second run with the same replication id in the same process goes on
  in the stream where the first stopped, and can return other records.
\<close>

theorem same_draws_same_records:
  assumes "\<forall>i < nat n * (length P + 1). g1 i = g2 i"
  shows "returned (run_simulation sc P n rep g2) = returned (run_simulation sc P n rep g1)"
proof -
  let ?s = "fold process [1..n] (Environment g1)"
  from start_initial[of sc P rep g1 n] have inv: "sim_inv sc P rep g1 ?s" and r: "rng ?s = g1"
    by (simp_all add: initial_def)
  have "fold process [1..n] (Environment g2) = ?s\<lparr>rng := g2\<rparr>"
    by (subst Environment_rng[of g2 g1]) (rule fold_process_rng)
  moreover have "\<forall>i<draws_left P ?s. rng ?s i = g2 i"
    using assms by (simp add: start_draws_left r)
  ultimately show ?thesis
    using run_agree[OF inv, of g2] by (simp add: returned_run)
qed

theorem same_draws_same_records_witness:
  "returned (run_simulation Simpy4 example_phases 2 7 example_rng2) =
     Some (Inr (example_results, example_records)) \<and>
   returned (run_simulation Simpy4 example_phases 2 7 example_rng) =
     Some (Inr (example_results, example_records)) \<and>
   example_rng2 8 \<noteq> example_rng 8"
  using same_draws_same_records[of 2 example_phases example_rng example_rng2 Simpy4 7] example_run
  by (simp add: example_rng_def example_rng2_def example_phases_def returned_def)

theorem same_draws_same_records_counterexample:
  "run_simulation Simpy4 example_phases 2 7 example_rng =
     Some (Inr ((example_results, example_records), \<lambda>i. 3 / 4)) \<and>
   run_simulation Simpy4 example_phases 2 7 (\<lambda>i. 3 / 4) =
     Some (Inr ((example_results_second, example_records_second), \<lambda>i. 3 / 4)) \<and>
   example_records_second \<noteq> example_records"
  by (simp add: run_simulation_def Environment_def process_def schedule_def example_phases_def
      example_rng_def run.simps step_def heappop_def resume_def upto.simps
      random_uniform_def random_random_def finish_def NORMAL_def URGENT_def mk_row_def Let_def
      example_records_def example_results_def example_records_second_def
      example_results_second_def)

text \<open>
  C2 (amended). \<^verbatim>\<open>run_simulation\<close> has no SimulationError and does not reject empty inputs.
  With an asset count of zero or less it returns an empty results mapping and an empty
  record table. With an empty phase table and at least one asset, simpy4 fails with the
  IndexError of \<^verbatim>\<open>phases[2]\<close>, and whenever simpy6 returns it returns an empty record table
  and an empty entry for every asset.
\<close>

theorem run_simulation_empty_inputs:
  "(n \<le> 0 \<longrightarrow> run_simulation sc P n rep g = Some (Inr (([], []), g))) \<and>
   (0 < n \<longrightarrow> run_simulation Simpy4 [] n rep g = Some (Inl IndexError)) \<and>
   (run_simulation Simpy6 [] n rep g = Some (Inr ((res, recs), g')) \<longrightarrow>
      recs = [] \<and> (\<forall>a\<in>{1..n}. map_of res a = Some []))"
proof (intro conjI impI)
  assume "n \<le> 0"
  then show "run_simulation sc P n rep g = Some (Inr (([], []), g))" by (rule no_assets)
next
  assume "0 < n"
  then show "run_simulation Simpy4 [] n rep g = Some (Inl IndexError)"
    by (rule cannot_arrive) (simp add: can_arrive_def)
next
  assume "run_simulation Simpy6 [] n rep g = Some (Inr ((res, recs), g'))"
  from empty_table_records[OF this]
  show "recs = []" and "\<forall>a\<in>{1..n}. map_of res a = Some []" by simp_all
qed

theorem run_simulation_empty_inputs_witness:
  "run_simulation Simpy6 SIMULATION_DETAILS_phases 0 3 (\<lambda>i. 1 / 2) =
     Some (Inr (([], []), \<lambda>i. 1 / 2)) \<and>
   run_simulation Simpy4 [] 2 3 (\<lambda>i. 1 / 2) = Some (Inl IndexError) \<and>
   run_simulation Simpy6 [] 1 3 (\<lambda>i. 1 / 2) = Some (Inr (([(1, [])], []), \<lambda>i. 1 / 2)) \<and>
   map_of [(1::int, [] :: phase_results)] 1 = Some []"
proof -
  have r: "run_simulation Simpy6 [] 1 3 (\<lambda>i. 1 / 2) = Some (Inr (([(1, [])], []), \<lambda>i. 1 / 2))"
    by (simp add: run_simulation_def Environment_def process_def schedule_def
      run.simps step_def heappop_def resume_def upto.simps ASSETS_PER_YEAR_def
      random_uniform_def random_random_def finish_def NORMAL_def URGENT_def Let_def)
  note t1 = run_simulation_empty_inputs[where n=0 and sc=Simpy6 and P=SIMULATION_DETAILS_phases
      and rep=3 and g="\<lambda>i. 1 / 2"]
  note t2 = run_simulation_empty_inputs[where n=2 and rep=3 and g="\<lambda>i. 1 / 2"]
  note t3 = run_simulation_empty_inputs[where n=1 and rep=3 and g="\<lambda>i. 1 / 2"
      and res="[(1, [])]" and recs="[]" and g'="\<lambda>i. 1 / 2"]
  from t1 t2 t3 r show ?thesis by simp
qed

theorem run_simulation_empty_inputs_counterexample:
  "run_simulation Simpy4 SIMULATION_DETAILS_phases 0 1 (\<lambda>i. 1 / 2) =
     Some (Inr (([], []), \<lambda>i. 1 / 2)) \<and>
   run_simulation Simpy6 [] 1 1 (\<lambda>i. 1 / 2) = Some (Inr (([(1, [])], []), \<lambda>i. 1 / 2))"
  by (simp add: run_simulation_def Environment_def process_def schedule_def
      run.simps step_def heappop_def resume_def upto.simps ASSETS_PER_YEAR_def
      random_uniform_def random_random_def finish_def NORMAL_def URGENT_def Let_def)

text \<open>
  C3. In the records of one asset, taken in the order of emission, the first record
  starts at the asset's arrival time (\<open>asset_init_time\<close>), and every later record starts
  when the record before it ended.
\<close>

theorem phase_start_is_previous_end:
  assumes "run_simulation sc P n rep g = Some (Inr ((res, recs), g'))"
  shows "(asset_records a recs \<noteq> [] \<longrightarrow>
            phase_start_time (asset_records a recs ! 0) =
              asset_init_time (asset_records a recs ! 0)) \<and>
         (\<forall>k. Suc k < length (asset_records a recs) \<longrightarrow>
            phase_start_time (asset_records a recs ! Suc k) =
              phase_end_time (asset_records a recs ! k))"
proof -
  from asset_chain[OF assms] obtain st where
    c: "record_chain P rep a st (asset_records a recs)" by blast
  show ?thesis
    using chain_fields(3,4,6)[OF c] by (simp add: start_at_0)
qed

theorem phase_start_is_previous_end_witness:
  "run_simulation Simpy4 example_phases 2 7 example_rng =
     Some (Inr ((example_results, example_records), \<lambda>i. 3 / 4)) \<and>
   asset_records 1 example_records \<noteq> [] \<and>
   phase_start_time (asset_records 1 example_records ! 0) = 1 / 2 \<and>
   asset_init_time (asset_records 1 example_records ! 0) = 1 / 2 \<and>
   Suc 1 < length (asset_records 1 example_records) \<and>
   phase_start_time (asset_records 1 example_records ! Suc 1) = 31 / 2 \<and>
   phase_end_time (asset_records 1 example_records ! 1) = 31 / 2"
  using phase_start_is_previous_end[OF example_run, of 1] example_run
  by (simp add: example_records_def asset_records_def mk_row_def)

text \<open>
  C4. In the records of one asset, a record with outcome FAILURE is the last one: no
  record of that asset follows it.
\<close>

theorem failure_is_last:
  assumes "run_simulation sc P n rep g = Some (Inr ((res, recs), g'))"
  shows "\<forall>k<length (asset_records a recs).
           phase_outcome (asset_records a recs ! k) = FAILURE \<longrightarrow>
           Suc k = length (asset_records a recs)"
proof (intro allI impI)
  fix k assume k: "k < length (asset_records a recs)"
    and f: "phase_outcome (asset_records a recs ! k) = FAILURE"
  from asset_chain[OF assms] obtain st where
    c: "record_chain P rep a st (asset_records a recs)" by blast
  from chain_success[OF c, of k] f have "\<not> Suc k < length (asset_records a recs)" by auto
  with k show "Suc k = length (asset_records a recs)" by simp
qed

theorem failure_is_last_witness:
  "run_simulation Simpy4 example_phases 2 7 example_rng =
     Some (Inr ((example_results, example_records), \<lambda>i. 3 / 4)) \<and>
   1 < length (asset_records 2 example_records) \<and>
   phase_outcome (asset_records 2 example_records ! 1) = FAILURE \<and>
   Suc 1 = length (asset_records 2 example_records)"
  using failure_is_last[OF example_run, of 2] example_run
  by (simp add: example_records_def asset_records_def mk_row_def)

text \<open>
  C5. The phase indices of one asset's records, in the order of emission, are
  0, 1, 2, ... without gap or repeat; the k-th record is for the k-th phase of the
  table, so there is at most one record per phase.
\<close>

theorem phase_idx_counts_up:
  assumes "run_simulation sc P n rep g = Some (Inr ((res, recs), g'))"
  shows "map phase_idx (asset_records a recs) = [0..<length (asset_records a recs)] \<and>
         length (asset_records a recs) \<le> length P \<and>
         (\<forall>k<length (asset_records a recs). phase (asset_records a recs ! k) = name (P ! k))"
proof -
  from asset_chain[OF assms] obtain st where
    c: "record_chain P rep a st (asset_records a recs)" by blast
  have "map phase_idx (asset_records a recs) = [0..<length (asset_records a recs)]"
    by (rule nth_equalityI) (simp_all add: chain_fields(1)[OF c])
  with chain_length[OF c] chain_fields(2)[OF c] show ?thesis by simp
qed

theorem phase_idx_counts_up_witness:
  "run_simulation Simpy4 example_phases 2 7 example_rng =
     Some (Inr ((example_results, example_records), \<lambda>i. 3 / 4)) \<and>
   map phase_idx (asset_records 1 example_records) = [0, 1, 2] \<and>
   map phase_idx (asset_records 2 example_records) = [0, 1] \<and>
   map phase (asset_records 1 example_records) = [''A'', ''B'', ''C'']"
  using phase_idx_counts_up[OF example_run, of 1] phase_idx_counts_up[OF example_run, of 2]
    example_run
  by (simp add: example_records_def asset_records_def mk_row_def example_phases_def)

text \<open>
  C6 (amended). \<^verbatim>\<open>run_simulation\<close> always comes back (the event loop terminates), and it
  returns its tables, not an exception, when the script can compute an arrival time and
  no duration or draw is negative. When it returns its tables for a table with at least
  one phase, every asset has a record, and its last record is a FAILURE or the SUCCESS of
  the last phase of the table. For an empty table it returns no record at all, so the
  assets end without one.
\<close>

theorem every_asset_terminal:
  "(\<exists>r. run_simulation sc P n rep g = Some r) \<and>
   (runnable sc P g \<longrightarrow>
      (\<exists>res recs g'. run_simulation sc P n rep g = Some (Inr ((res, recs), g')))) \<and>
   (run_simulation sc P n rep g = Some (Inr ((res, recs), g')) \<longrightarrow> P \<noteq> [] \<longrightarrow>
      (\<forall>a\<in>{1..n}. asset_records a recs \<noteq> [] \<and>
         (phase_outcome (last (asset_records a recs)) = FAILURE \<or>
          phase_outcome (last (asset_records a recs)) = SUCCESS \<and>
          phase_idx (last (asset_records a recs)) = length P - 1 \<and>
          phase (last (asset_records a recs)) = name (last P)))) \<and>
   (run_simulation sc [] n rep g = Some (Inr ((res, recs), g')) \<longrightarrow> recs = [])"
proof (intro conjI impI ballI)
  show "\<exists>r. run_simulation sc P n rep g = Some r" by (rule run_simulation_total)
next
  assume "runnable sc P g"
  then show "\<exists>res recs g'. run_simulation sc P n rep g = Some (Inr ((res, recs), g'))"
    by (rule run_simulation_returns)
next
  fix a
  assume run: "run_simulation sc P n rep g = Some (Inr ((res, recs), g'))" and P: "P \<noteq> []"
    and a: "a \<in> {1..n}"
  let ?rs = "asset_records a recs"
  from run_simulation_Inr[OF run] a obtain st where
    c: "record_chain P rep a st ?rs" and d: "complete P ?rs" by blast
  from d P have ne: "?rs \<noteq> []"
    and t: "phase_outcome (last ?rs) = FAILURE \<or>
            (length ?rs = length P \<and> phase_outcome (last ?rs) = SUCCESS)"
    by (simp_all add: complete_def)
  show "?rs \<noteq> []" by (rule ne)
  have l: "last ?rs = ?rs ! (length ?rs - 1)" using ne by (rule last_conv_nth)
  have k: "length ?rs - 1 < length ?rs" using ne by simp
  from t show "phase_outcome (last ?rs) = FAILURE \<or>
          phase_outcome (last ?rs) = SUCCESS \<and>
          phase_idx (last ?rs) = length P - 1 \<and> phase (last ?rs) = name (last P)"
  proof
    assume "phase_outcome (last ?rs) = FAILURE"
    then show ?thesis by simp
  next
    assume "length ?rs = length P \<and> phase_outcome (last ?rs) = SUCCESS"
    then have len: "length ?rs = length P" and s: "phase_outcome (last ?rs) = SUCCESS"
      by simp_all
    have l': "last ?rs = ?rs ! (length P - 1)" using l len by simp
    have k': "length P - 1 < length ?rs" using k len by simp
    from chain_fields(1,2)[OF c k'] have "phase_idx (last ?rs) = length P - 1"
      "phase (last ?rs) = name (last P)"
      using P by (simp_all add: l' last_conv_nth)
    with s show ?thesis by simp
  qed
next
  assume "run_simulation sc [] n rep g = Some (Inr ((res, recs), g'))"
  from empty_table_records[OF this] show "recs = []" by simp
qed

theorem every_asset_terminal_witness:
  "run_simulation Simpy4 example_phases 2 7 example_rng =
     Some (Inr ((example_results, example_records), \<lambda>i. 3 / 4)) \<and> example_phases \<noteq> [] \<and>
   (1::int) \<in> {1..2} \<and> (2::int) \<in> {1..2} \<and>
   phase_outcome (last (asset_records 2 example_records)) = FAILURE \<and>
   phase_outcome (last (asset_records 1 example_records)) = SUCCESS \<and>
   phase_idx (last (asset_records 1 example_records)) = length example_phases - 1 \<and>
   run_simulation Simpy6 [] 1 5 (\<lambda>i. 1 / 4) = Some (Inr (([(1, [])], []), \<lambda>i. 1 / 4))"
proof -
  have "runnable Simpy4 example_phases example_rng"
    by (simp add: runnable_def can_arrive_def example_phases_def example_rng_def)
  moreover have e: "run_simulation Simpy6 [] 1 5 (\<lambda>i. 1 / 4) =
      Some (Inr (([(1, [])], []), \<lambda>i. 1 / 4))"
    by (simp add: run_simulation_def Environment_def process_def schedule_def
      run.simps step_def heappop_def resume_def upto.simps ASSETS_PER_YEAR_def
      random_uniform_def random_random_def finish_def NORMAL_def URGENT_def Let_def)
  moreover note every_asset_terminal[of Simpy4 example_phases 2 7 example_rng example_results
      example_records "\<lambda>i. 3 / 4"]
    every_asset_terminal[where sc=Simpy6 and P="[]" and n=1 and rep=5 and g="\<lambda>i. 1 / 4"
      and res="[(1, [])]" and recs="[]" and g'="\<lambda>i. 1 / 4"]
    example_run
  ultimately show ?thesis
    by (simp add: example_records_def asset_records_def mk_row_def example_phases_def)
qed

theorem every_asset_terminal_counterexample:
  "run_simulation Simpy6 [] 1 5 (\<lambda>i. 1 / 4) = Some (Inr (([(1, [])], []), \<lambda>i. 1 / 4)) \<and>
   (1::int) \<in> {1..1} \<and> asset_records 1 [] = []"
  by (simp add: run_simulation_def Environment_def process_def schedule_def
      run.simps step_def heappop_def resume_def upto.simps ASSETS_PER_YEAR_def
      random_uniform_def random_random_def finish_def NORMAL_def URGENT_def Let_def
      asset_records_def)

text \<open>
  C7. Every record ends at its start plus the duration of its phase. In the third
  scenario (phases of duration 10 and 5 that always succeed, one asset that arrives at
  time 3) the run returns exactly two SUCCESS records, from 3 to 13 and from 13 to 18.
  Only simpy6 can set this scenario up: simpy4 reads its arrival window from a third phase.
\<close>

theorem end_is_start_plus_duration:
  "(run_simulation sc P n rep g = Some (Inr ((res, recs), g')) \<longrightarrow>
      (\<forall>r\<in>set recs. phase_end_time r = phase_start_time r + phase_duration r)) \<and>
   (arrival sc (scenario3 n1 n2) 1 g = Inr (3, gA) \<longrightarrow> g 1 < 1 \<longrightarrow> g 2 < 1 \<longrightarrow>
      run_simulation sc (scenario3 n1 n2) 1 rep g =
        Some (Inr (([(1, AList.update n2 \<lparr>start_time = 13, end_time = 18, outcome = SUCCESS\<rparr>
                          [(n1, \<lparr>start_time = 3, end_time = 13, outcome = SUCCESS\<rparr>)])],
           [mk_row rep 1 0 \<lparr>name = n1, duration = 10, success_prob = 1\<rparr> 3 13 SUCCESS 3,
            mk_row rep 1 1 \<lparr>name = n2, duration = 5, success_prob = 1\<rparr> 13 18 SUCCESS 3]),
           drop_draws 3 g)))"
proof (intro conjI impI ballI)
  fix r
  assume run: "run_simulation sc P n rep g = Some (Inr ((res, recs), g'))" and r: "r \<in> set recs"
  let ?rs = "asset_records (asset_id r) recs"
  from asset_chain[OF run] obtain st where c: "record_chain P rep (asset_id r) st ?rs" by blast
  from r have "r \<in> set ?rs" by (simp add: asset_records_def)
  then obtain k where k: "k < length ?rs" "?rs ! k = r" by (auto simp: in_set_conv_nth)
  from k(1) chain_length[OF c] have "k < length P" by simp
  from chain_fields(3,4,5)[OF c k(1)] start_at_Suc[OF this, of st] k(2)
  show "phase_end_time r = phase_start_time r + phase_duration r" by simp
next
  assume "arrival sc (scenario3 n1 n2) 1 g = Inr (3, gA)" "g 1 < 1" "g 2 < 1"
  then show "run_simulation sc (scenario3 n1 n2) 1 rep g =
        Some (Inr (([(1, AList.update n2 \<lparr>start_time = 13, end_time = 18, outcome = SUCCESS\<rparr>
                          [(n1, \<lparr>start_time = 3, end_time = 13, outcome = SUCCESS\<rparr>)])],
           [mk_row rep 1 0 \<lparr>name = n1, duration = 10, success_prob = 1\<rparr> 3 13 SUCCESS 3,
            mk_row rep 1 1 \<lparr>name = n2, duration = 5, success_prob = 1\<rparr> 13 18 SUCCESS 3]),
           drop_draws 3 g))"
    by (rule scenario3_run)
qed

theorem end_is_start_plus_duration_witness:
  "run_simulation Simpy4 example_phases 2 7 example_rng =
     Some (Inr ((example_results, example_records), \<lambda>i. 3 / 4)) \<and>
   example_records ! 3 \<in> set example_records \<and>
   phase_end_time (example_records ! 3) = 33 / 2 \<and>
   phase_start_time (example_records ! 3) + phase_duration (example_records ! 3) = 33 / 2 \<and>
   arrival Simpy6 (scenario3 ''P1'' ''P2'') 1 scenario3_rng = Inr (3, \<lambda>i. 1 / 2) \<and>
   scenario3_rng 1 < 1 \<and> scenario3_rng 2 < 1 \<and>
   run_simulation Simpy6 (scenario3 ''P1'' ''P2'') 1 7 scenario3_rng =
     Some (Inr (([(1, [(''P1'', \<lparr>start_time = 3, end_time = 13, outcome = SUCCESS\<rparr>),
                       (''P2'', \<lparr>start_time = 13, end_time = 18, outcome = SUCCESS\<rparr>)])],
        [mk_row 7 1 0 \<lparr>name = ''P1'', duration = 10, success_prob = 1\<rparr> 3 13 SUCCESS 3,
         mk_row 7 1 1 \<lparr>name = ''P2'', duration = 5, success_prob = 1\<rparr> 13 18 SUCCESS 3]),
        \<lambda>i. 1 / 2))"
proof -
  have a: "arrival Simpy6 (scenario3 ''P1'' ''P2'') 1 scenario3_rng = Inr (3, \<lambda>i. 1 / 2)"
    by (simp add: scenario3_rng_def ASSETS_PER_YEAR_def random_uniform_def random_random_def)
  have d: "drop_draws 3 scenario3_rng = (\<lambda>i. 1 / 2)"
    by (simp add: drop_draws_def scenario3_rng_def)
  have g: "scenario3_rng 1 < 1" "scenario3_rng 2 < 1" by (simp_all add: scenario3_rng_def)
  note t1 = end_is_start_plus_duration[where sc=Simpy4 and P=example_phases and n=2 and rep=7
      and g=example_rng and res=example_results and recs=example_records and g'="\<lambda>i. 3 / 4"]
  note t2 = end_is_start_plus_duration[where sc=Simpy6 and rep=7 and g=scenario3_rng
      and ?n1.0="''P1''" and ?n2.0="''P2''" and gA="\<lambda>i. 1 / 2"]
  from t1 t2 example_run a g d show ?thesis
    by (simp add: example_records_def mk_row_def)
qed

text \<open>
  C8 (amended). In simpy6 the arrival time of asset \<open>a\<close> is the binary64 sum of year * 52
  and u, with year the integer quotient of a - 1 by \<^verbatim>\<open>ASSETS_PER_YEAR\<close> and u the value of
  \<^verbatim>\<open>random.uniform(0, 52)\<close>, which lies in [0, 52) for every draw that \<^verbatim>\<open>random()\<close> delivers
  (at most 1 - 2^-53). The sum is rounded, so the arrival time lies in the closed window
  from year * 52 to (year + 1) * 52; the upper end is reached.
\<close>

theorem cohort_arrival_closed_window:
  assumes "1 \<le> a" "((a - 1) div ASSETS_PER_YEAR + 1) * 52 < 2 ^ 53"
    "0 \<le> r" "r \<le> 1 - 1 / 2 ^ 53"
  shows "0 \<le> uniform_float 0 52 r \<and> uniform_float 0 52 r < 52 \<and>
         start_time_float a r =
           fadd (of_int ((a - 1) div ASSETS_PER_YEAR * 52)) (uniform_float 0 52 r) \<and>
         of_int ((a - 1) div ASSETS_PER_YEAR * 52) \<le> start_time_float a r \<and>
         start_time_float a r \<le> of_int (((a - 1) div ASSETS_PER_YEAR + 1) * 52)"
  using uniform_float_bounds[OF assms(3,4)] start_time_float_window[OF assms]
  by (simp add: fadd_def)

theorem cohort_arrival_closed_window_witness:
  "(1::int) \<le> 51 \<and> ((51 - 1) div ASSETS_PER_YEAR + 1) * 52 < 2 ^ 53 \<and>
   (0::real) \<le> 1 - 1 / 2 ^ 53 \<and>
   0 \<le> uniform_float 0 52 (1 - 1 / 2 ^ 53) \<and> uniform_float 0 52 (1 - 1 / 2 ^ 53) < 52 \<and>
   of_int ((51 - 1) div ASSETS_PER_YEAR * 52) \<le> start_time_float 51 (1 - 1 / 2 ^ 53) \<and>
   start_time_float 51 (1 - 1 / 2 ^ 53) \<le> of_int (((51 - 1) div ASSETS_PER_YEAR + 1) * 52)"
proof -
  have h: "(1::int) \<le> 51" "((51 - 1) div ASSETS_PER_YEAR + 1) * 52 < 2 ^ 53"
    "(0::real) \<le> 1 - 1 / 2 ^ 53" "(1 - 1 / 2 ^ 53 :: real) \<le> 1 - 1 / 2 ^ 53"
    by (simp_all add: ASSETS_PER_YEAR_def)
  from cohort_arrival_closed_window[OF h] h show ?thesis by simp
qed

theorem cohort_arrival_closed_window_counterexample:
  "start_time_float 51 (1 - 1 / 2 ^ 53) = 104 \<and> (51 - 1) div ASSETS_PER_YEAR = 1 \<and>
   \<not> start_time_float 51 (1 - 1 / 2 ^ 53) < of_int (((51 - 1) div ASSETS_PER_YEAR + 1) * 52)"
  using start_time_float_51 by (simp add: ASSETS_PER_YEAR_def)

text \<open>
  C9 (amended). The scripts do not validate the phase table and have no
  ConfigurationError: the table is a literal, and any table is simulated and its tables
  returned, whatever its names and probabilities, when the script can compute an arrival
  time and no duration or draw is negative. The literal table of the scripts does meet the
  conditions: every duration positive, every probability in [0, 1], names non-empty and
  unique, at least one phase.
\<close>

theorem builtin_phase_table_valid:
  "spec_valid_phase_table SIMULATION_DETAILS_phases \<and>
   (runnable sc P g \<longrightarrow>
      (\<exists>res recs g'. run_simulation sc P n rep g = Some (Inr ((res, recs), g'))))"
proof (intro conjI impI)
  show "spec_valid_phase_table SIMULATION_DETAILS_phases"
    by (simp add: spec_valid_phase_table_def SIMULATION_DETAILS_phases_def)
next
  assume "runnable sc P g"
  then show "\<exists>res recs g'. run_simulation sc P n rep g = Some (Inr ((res, recs), g'))"
    by (rule run_simulation_returns)
qed

theorem builtin_phase_table_valid_witness:
  "list_all (\<lambda>ph. 0 \<le> duration ph) unvalidated_phases \<and>
   run_simulation Simpy6 unvalidated_phases 1 2 (\<lambda>i. 1 / 4) =
     Some (Inr (([(1, [([], \<lparr>start_time = 13, end_time = 13, outcome = FAILURE\<rparr>)])],
                 [mk_row 2 1 0 \<lparr>name = [], duration = 0, success_prob = 2\<rparr> 13 13 SUCCESS 13,
                  mk_row 2 1 1 \<lparr>name = [], duration = 0, success_prob = - 1\<rparr> 13 13 FAILURE 13]),
                \<lambda>i. 1 / 4))"
proof -
  have "runnable Simpy6 unvalidated_phases (\<lambda>i. 1 / 4)"
    by (simp add: runnable_def can_arrive_def unvalidated_phases_def)
  with builtin_phase_table_valid[of Simpy6 unvalidated_phases "\<lambda>i. 1 / 4" 1 2]
  show ?thesis
    by (simp add: unvalidated_phases_def
      run_simulation_def Environment_def process_def schedule_def mk_row_def
      run.simps step_def heappop_def resume_def upto.simps ASSETS_PER_YEAR_def
      random_uniform_def random_random_def finish_def NORMAL_def URGENT_def Let_def)
qed

theorem phase_table_validation_counterexample:
  "\<not> spec_valid_phase_table unvalidated_phases \<and>
   run_simulation Simpy6 unvalidated_phases 1 1 (\<lambda>i. 1 / 2) =
     Some (Inr (([(1, [([], \<lparr>start_time = 26, end_time = 26, outcome = FAILURE\<rparr>)])],
                 [mk_row 1 1 0 \<lparr>name = [], duration = 0, success_prob = 2\<rparr> 26 26 SUCCESS 26,
                  mk_row 1 1 1 \<lparr>name = [], duration = 0, success_prob = - 1\<rparr> 26 26 FAILURE 26]),
                \<lambda>i. 1 / 2))"
  by (simp add: spec_valid_phase_table_def unvalidated_phases_def
      run_simulation_def Environment_def process_def schedule_def mk_row_def
      run.simps step_def heappop_def resume_def upto.simps ASSETS_PER_YEAR_def
      random_uniform_def random_random_def finish_def NORMAL_def URGENT_def Let_def)

text \<open>
  C10. The results mapping has exactly one entry for each asset id 1..num_assets, also for
  an asset that failed its first phase, and the entry of an asset is the dictionary that
  the writes for its records build: its keys are the phases of the asset's records.
\<close>

theorem results_entry_per_asset:
  assumes "run_simulation sc P n rep g = Some (Inr ((res, recs), g'))"
  shows "distinct (map fst res) \<and> set (map fst res) = {1..n} \<and>
         (\<forall>a\<in>{1..n}. map_of res a = Some (phase_results_of (asset_records a recs)) \<and>
            fst ` set (phase_results_of (asset_records a recs)) =
              phase ` set (asset_records a recs))"
proof -
  from run_simulation_Inr[OF assms] have
    m: "\<forall>a\<in>{1..n}. map_of res a = Some (phase_results_of (asset_records a recs))"
    and sub: "fst ` set res \<subseteq> {1..n}" and d: "distinct (map fst res)" by blast+
  have "{1..n} \<subseteq> fst ` set res"
  proof
    fix a assume "a \<in> {1..n}"
    with m have "map_of res a = Some (phase_results_of (asset_records a recs))" by blast
    then show "a \<in> fst ` set res" by (metis map_of_eq_None_iff option.distinct(1))
  qed
  with sub have "set (map fst res) = {1..n}" by auto
  with d m show ?thesis by (simp add: phase_results_of_keys)
qed

theorem results_entry_per_asset_witness:
  "run_simulation Simpy4 example_phases 2 7 example_rng =
     Some (Inr ((example_results, example_records), \<lambda>i. 3 / 4)) \<and>
   distinct (map fst example_results) \<and> set (map fst example_results) = {1..2} \<and>
   map_of example_results 2 =
     Some [(''A'', \<lparr>start_time = 3 / 2, end_time = 23 / 2, outcome = SUCCESS\<rparr>),
           (''B'', \<lparr>start_time = 23 / 2, end_time = 33 / 2, outcome = FAILURE\<rparr>)] \<and>
   phase ` set (asset_records 2 example_records) = {''A'', ''B''}"
  using results_entry_per_asset[OF example_run] example_run
  by (simp add: example_records_def asset_records_def mk_row_def example_phases_def
      example_results_def)

end
